theory Spec2Isabelle
  imports Main
begin

section \<open>The DMA ping-pong driver (dmapp): data model\<close>

text \<open>
  The driver keeps one \<open>dmapp_device\<close> per attachment: two user slots \<open>user[2]\<close>, two
  fences \<open>fence[2]\<close> and a spinlock. Every open file owns a \<open>dmapp_user\<close> allocated by
  \<open>kzalloc\<close>, whose address is stored in a slot and in \<open>file->private_data\<close>.

  The embedding follows the code section by section: everything the source does between
  \<open>spin_lock\<close> and \<open>spin_unlock\<close>, and every single call of a fence primitive (which
  takes the same spinlock, handed to \<open>dma_fence_init\<close> as the fence's lock), is one atomic
  step. A call that has dropped the spinlock and not yet returned is recorded as a
  \<open>frame\<close>: its program point and its local variables.
\<close>

datatype fence_state = Pending | Signaled

record dmapp_user =
  is_locked :: bool

text \<open>
  The frames of \<open>dmapp_cdev_ioctl\<close> and \<open>dmapp_cdev_release\<close>, named after the line the
  call is about to execute:
  \<^item> \<open>LockWait user parity wait_fence\<close>: before \<open>dma_fence_wait(wait_fence, true)\<close>;
  \<^item> \<open>LockWoken user parity wait_fence\<close>: the wait returned 0, before the second
    \<open>spin_lock\<close> of the lock branch;
  \<^item> \<open>UnlockSignal user signal_fence\<close>: before \<open>dma_fence_signal(signal_fence)\<close>;
  \<^item> \<open>UnlockClear user ret\<close>: before the \<open>spin_lock\<close> that clears \<open>is_locked\<close>;
  \<^item> \<open>ReleaseCheck signal_fence\<close>: \<open>dmapp_cdev_release\<close> after \<open>kfree(user)\<close>, before
    the test \<open>signal_fence && !dma_fence_is_signaled(signal_fence)\<close>;
  \<^item> \<open>ReleaseSignal signal_fence\<close>: the test passed, before \<open>dma_fence_signal\<close>.
\<close>

datatype frame =
    LockWait nat nat nat
  | LockWoken nat nat nat
  | UnlockSignal nat nat
  | UnlockClear nat int
  | ReleaseCheck "nat option"
  | ReleaseSignal nat

text \<open>
  The state: the device's slots and fences (arrays indexed by 0 and 1), the heap of
  \<open>dmapp_user\<close> structs by address (its domain is the set of open files; the back
  pointer \<open>dmapp_dev\<close> is left out, there is one device), and the calls in flight, by
  thread.
\<close>

record dmapp_state =
  user :: "nat \<Rightarrow> nat option"
  fence :: "nat \<Rightarrow> fence_state"
  mem :: "nat \<Rightarrow> dmapp_user option"
  calls :: "(nat \<times> frame) list"

subsection \<open>Constants\<close>

definition EINVAL :: int where "EINVAL = 22"
definition ENOMEM :: int where "ENOMEM = 12"
definition ENOTTY :: int where "ENOTTY = 25"
definition ERESTARTSYS :: int where "ERESTARTSYS = 512"

definition DMAPP_BUFFER_SIZE :: int where "DMAPP_BUFFER_SIZE = 10"

text \<open>\<open>_IO(type, nr)\<close> in the generic encoding: no direction, size 0.\<close>

definition IO :: "nat \<Rightarrow> nat \<Rightarrow> nat" where
  "IO ty nr = ty * 256 + nr"

definition DMAPP_IOC_MAGIC :: nat where "DMAPP_IOC_MAGIC = 100"

definition DMAPP_IOCTL_GET_BUFFER_SIZE :: nat where
  "DMAPP_IOCTL_GET_BUFFER_SIZE = IO DMAPP_IOC_MAGIC 1"
definition DMAPP_IOCTL_GET_BUFFER_FD :: nat where
  "DMAPP_IOCTL_GET_BUFFER_FD = IO DMAPP_IOC_MAGIC 2"
definition DMAPP_IOCTL_GET_BUFFER_PARITY :: nat where
  "DMAPP_IOCTL_GET_BUFFER_PARITY = IO DMAPP_IOC_MAGIC 3"
definition DMAPP_IOCTL_BUFFER_LOCK :: nat where
  "DMAPP_IOCTL_BUFFER_LOCK = IO DMAPP_IOC_MAGIC 4"
definition DMAPP_IOCTL_BUFFER_UNLOCK :: nat where
  "DMAPP_IOCTL_BUFFER_UNLOCK = IO DMAPP_IOC_MAGIC 5"

subsection \<open>The kernel's fence primitives\<close>

text \<open>
  Modelled from the spec: the kernel's \<open>dma_fence\<close> primitives, which the driver calls
  and this repository does not contain. A fence is a latch, pending until signalled;
  \<open>dma_fence_init\<close> makes it pending again; \<open>dma_fence_signal\<close> latches it and returns 0,
  or returns a negative error and changes nothing when it is signalled already (the
  driver's own comment: "Signal may fail if the fence was previously signaled");
  \<open>dma_fence_wait\<close> returns 0 once the fence is signalled and a negative error when the
  sleep is interrupted ("Wait may fail if interrupted by a signal").
\<close>

definition dma_fence_init :: "nat \<Rightarrow> dmapp_state \<Rightarrow> dmapp_state" where
  "dma_fence_init f s = s\<lparr>fence := (fence s)(f := Pending)\<rparr>"

definition dma_fence_is_signaled :: "nat \<Rightarrow> dmapp_state \<Rightarrow> bool" where
  "dma_fence_is_signaled f s = (fence s f = Signaled)"

definition dma_fence_signal :: "nat \<Rightarrow> dmapp_state \<Rightarrow> int \<times> dmapp_state" where
  "dma_fence_signal f s =
     (if fence s f = Signaled then (- EINVAL, s)
      else (0, s\<lparr>fence := (fence s)(f := Signaled)\<rparr>))"

subsection \<open>Calls in flight\<close>

definition put :: "nat \<Rightarrow> frame \<Rightarrow> (nat \<times> frame) list \<Rightarrow> (nat \<times> frame) list" where
  "put t fr cs = (t, fr) # filter (\<lambda>c. fst c \<noteq> t) cs"

definition del :: "nat \<Rightarrow> (nat \<times> frame) list \<Rightarrow> (nat \<times> frame) list" where
  "del t cs = filter (\<lambda>c. fst c \<noteq> t) cs"

text \<open>The user a frame of \<open>dmapp_cdev_ioctl\<close> belongs to; a release has freed its user.\<close>

fun frame_user :: "frame \<Rightarrow> nat option" where
  "frame_user (LockWait u p w) = Some u"
| "frame_user (LockWoken u p w) = Some u"
| "frame_user (UnlockSignal u f) = Some u"
| "frame_user (UnlockClear u r) = Some u"
| "frame_user (ReleaseCheck f) = None"
| "frame_user (ReleaseSignal f) = None"

definition busy :: "dmapp_state \<Rightarrow> nat \<Rightarrow> bool" where
  "busy s u = (Some u \<in> set (map (\<lambda>c. frame_user (snd c)) (calls s)))"

definition locked :: "dmapp_state \<Rightarrow> nat \<Rightarrow> bool" where
  "locked s u = (case mem s u of None \<Rightarrow> False | Some usr \<Rightarrow> is_locked usr)"

section \<open>The driver's functions\<close>

subsection \<open>dmapp_platform_driver_probe\<close>

text \<open>
  What the kernel answers to the probe's calls: whether each allocation succeeds, and the
  return values of \<open>alloc_chrdev_region\<close>, \<open>device_create\<close> (an error pointer's code, if
  any), \<open>dma_buf_export\<close> (the same) and \<open>cdev_add\<close>.
\<close>

record probe_env =
  dev_alloc :: bool
  chrdev_ret :: int
  device_err :: "int option"
  fence0_alloc :: bool
  fence1_alloc :: bool
  buffer_alloc :: bool
  coherent_alloc :: bool
  export_err :: "int option"
  cdev_add_ret :: int

text \<open>The zeroed \<open>dmapp_device\<close> that \<open>kzalloc\<close> returns: both slots NULL.\<close>

definition zeroed :: dmapp_state where
  "zeroed = \<lparr>user = (\<lambda>i. None), fence = (\<lambda>i. Pending), mem = (\<lambda>a. None), calls = []\<rparr>"

definition dmapp_platform_driver_probe :: "probe_env \<Rightarrow> int + dmapp_state" where
  "dmapp_platform_driver_probe env =
     (if \<not> dev_alloc env then Inl (- ENOMEM)
      else if chrdev_ret env < 0 then Inl (chrdev_ret env)
      else (case device_err env of
        Some e \<Rightarrow> Inl e
      | None \<Rightarrow>
          (if \<not> fence0_alloc env then Inl (- ENOMEM)
           else let s0 = dma_fence_init 0 zeroed in
           if \<not> fence1_alloc env then Inl (- ENOMEM)
           else let s1 = dma_fence_init 1 s0 in
           (case dma_fence_signal 1 s1 of (ret, s2) \<Rightarrow>
             (if ret < 0 then Inl ret
              else if \<not> buffer_alloc env then Inl (- ENOMEM)
              else if \<not> coherent_alloc env then Inl (- ENOMEM)
              else (case export_err env of
                Some e \<Rightarrow> Inl e
              | None \<Rightarrow>
                  (if cdev_add_ret env < 0 then Inl (cdev_add_ret env)
                   else Inr s2)))))))"

subsection \<open>dmapp_cdev_open\<close>

text \<open>
  The argument is what \<open>kzalloc\<close> returned: \<open>None\<close> for NULL, else the address of a zeroed
  \<open>dmapp_user\<close>. On the error path the struct is freed again, so the heap is as before.
\<close>

definition dmapp_cdev_open :: "nat option \<Rightarrow> dmapp_state \<Rightarrow> int \<times> dmapp_state" where
  "dmapp_cdev_open alloc s =
     (case alloc of
        None \<Rightarrow> (- ENOMEM, s)
      | Some u \<Rightarrow>
          (case (if user s 0 = None then Some 0
                 else if user s 1 = None then Some (1::nat)
                 else None) of
             None \<Rightarrow> (- EINVAL, s)
           | Some parity \<Rightarrow>
               (0, s\<lparr>user := (user s)(parity := Some u),
                      mem := (mem s)(u \<mapsto> \<lparr>is_locked = False\<rparr>)\<rparr>)))"

subsection \<open>dmapp_cdev_release\<close>

text \<open>
  Lines 166 to 184: under the spinlock the user's slot is cleared and \<open>signal_fence\<close> is
  chosen; then the user is freed.
\<close>

definition dmapp_cdev_release_disconnect ::
    "nat \<Rightarrow> nat \<Rightarrow> dmapp_state \<Rightarrow> int option \<times> dmapp_state" where
  "dmapp_cdev_release_disconnect t u s =
     (let (signal_fence, s1) =
            (if user s 0 = Some u then
               (if locked s u then Some 1 else None, s\<lparr>user := (user s)(0 := None)\<rparr>)
             else if user s 1 = Some u then
               (if locked s u then Some 0 else None, s\<lparr>user := (user s)(1 := None)\<rparr>)
             else (None, s))
      in (None, s1\<lparr>mem := (mem s1)(u := None),
                    calls := put t (ReleaseCheck signal_fence) (calls s1)\<rparr>))"

text \<open>Line 187: the test; when it fails \<open>ret\<close> is still 0 and the call returns it.\<close>

definition dmapp_cdev_release_check ::
    "nat \<Rightarrow> nat option \<Rightarrow> dmapp_state \<Rightarrow> int option \<times> dmapp_state" where
  "dmapp_cdev_release_check t signal_fence s =
     (case signal_fence of
        None \<Rightarrow> (Some 0, s\<lparr>calls := del t (calls s)\<rparr>)
      | Some f \<Rightarrow>
          if \<not> dma_fence_is_signaled f s
          then (None, s\<lparr>calls := put t (ReleaseSignal f) (calls s)\<rparr>)
          else (Some 0, s\<lparr>calls := del t (calls s)\<rparr>))"

text \<open>Lines 188 to 199: the signal; its result is logged when negative, and returned.\<close>

definition dmapp_cdev_release_signal ::
    "nat \<Rightarrow> nat \<Rightarrow> dmapp_state \<Rightarrow> int option \<times> dmapp_state" where
  "dmapp_cdev_release_signal t f s =
     (case dma_fence_signal f s of
        (ret, s1) \<Rightarrow> (Some ret, s1\<lparr>calls := del t (calls s1)\<rparr>))"

subsection \<open>dmapp_cdev_ioctl\<close>

text \<open>
  Lines 226 to 277 and the default branch: the user is validated and the fences are
  assigned under the spinlock, the two no-op cases return, and the commands that neither
  sleep nor signal return after the unlock. \<open>fd\<close> is what \<open>dma_buf_fd\<close> returns.
\<close>

definition dmapp_cdev_ioctl_validate ::
    "nat \<Rightarrow> nat \<Rightarrow> nat \<Rightarrow> int \<Rightarrow> dmapp_state \<Rightarrow> int option \<times> dmapp_state" where
  "dmapp_cdev_ioctl_validate t u cmd fd s =
     (case (if user s 0 = Some u then Some (0, 1, 0)
            else if user s 1 = Some u then Some (1::nat, 0::nat, 1::nat)
            else None) of
        None \<Rightarrow> (Some (- EINVAL), s)
      | Some (parity, signal_fence, wait_fence) \<Rightarrow>
          if cmd = DMAPP_IOCTL_BUFFER_LOCK \<and> locked s u then (Some 0, s)
          else if cmd = DMAPP_IOCTL_BUFFER_UNLOCK \<and> \<not> locked s u then (Some 0, s)
          else if cmd = DMAPP_IOCTL_GET_BUFFER_SIZE then (Some DMAPP_BUFFER_SIZE, s)
          else if cmd = DMAPP_IOCTL_GET_BUFFER_PARITY then (Some (int parity), s)
          else if cmd = DMAPP_IOCTL_GET_BUFFER_FD then (Some fd, s)
          else if cmd = DMAPP_IOCTL_BUFFER_LOCK
            then (None, s\<lparr>calls := put t (LockWait u parity wait_fence) (calls s)\<rparr>)
          else if cmd = DMAPP_IOCTL_BUFFER_UNLOCK
            then (None, s\<lparr>calls := put t (UnlockSignal u signal_fence) (calls s)\<rparr>)
          else (Some (- ENOTTY), s))"

text \<open>
  Line 281, \<open>dma_fence_wait(wait_fence, true)\<close>. It returns 0 only when the fence is
  signalled (\<open>dmapp_cdev_ioctl_woken\<close> is \<open>None\<close> while the call sleeps), and a negative
  error when a signal interrupts the sleep, which the call logs and returns.
\<close>

definition dmapp_cdev_ioctl_woken ::
    "nat \<Rightarrow> nat \<Rightarrow> nat \<Rightarrow> nat \<Rightarrow> dmapp_state \<Rightarrow> (int option \<times> dmapp_state) option" where
  "dmapp_cdev_ioctl_woken t u parity wait_fence s =
     (if dma_fence_is_signaled wait_fence s
      then Some (None, s\<lparr>calls := put t (LockWoken u parity wait_fence) (calls s)\<rparr>)
      else None)"

definition dmapp_cdev_ioctl_interrupted :: "nat \<Rightarrow> dmapp_state \<Rightarrow> int option \<times> dmapp_state" where
  "dmapp_cdev_ioctl_interrupted t s = (Some (- ERESTARTSYS), s\<lparr>calls := del t (calls s)\<rparr>)"

text \<open>Lines 287 to 292: the fence is initialised again and the flag set; \<open>ret\<close> is 0.\<close>

definition dmapp_cdev_ioctl_locked ::
    "nat \<Rightarrow> nat \<Rightarrow> nat \<Rightarrow> nat \<Rightarrow> dmapp_state \<Rightarrow> int option \<times> dmapp_state" where
  "dmapp_cdev_ioctl_locked t u parity wait_fence s =
     (let s1 = dma_fence_init wait_fence s
      in (Some 0, s1\<lparr>mem := (mem s1)(u \<mapsto> \<lparr>is_locked = True\<rparr>),
                      calls := del t (calls s1)\<rparr>))"

text \<open>Lines 297 to 301: the signal, whose result is kept in \<open>ret\<close>.\<close>

definition dmapp_cdev_ioctl_signal ::
    "nat \<Rightarrow> nat \<Rightarrow> nat \<Rightarrow> dmapp_state \<Rightarrow> int option \<times> dmapp_state" where
  "dmapp_cdev_ioctl_signal t u signal_fence s =
     (case dma_fence_signal signal_fence s of
        (ret, s1) \<Rightarrow> (None, s1\<lparr>calls := put t (UnlockClear u ret) (calls s1)\<rparr>))"

text \<open>Lines 304 to 313: the flag is cleared under the spinlock and \<open>ret\<close> returned.\<close>

definition dmapp_cdev_ioctl_unlocked ::
    "nat \<Rightarrow> nat \<Rightarrow> int \<Rightarrow> dmapp_state \<Rightarrow> int option \<times> dmapp_state" where
  "dmapp_cdev_ioctl_unlocked t u ret s =
     (Some ret, s\<lparr>mem := (mem s)(u \<mapsto> \<lparr>is_locked = False\<rparr>),
                   calls := del t (calls s)\<rparr>)"

section \<open>The interleaving of calls\<close>

text \<open>
  An event is one atomic section of one call. \<open>step\<close> is \<open>None\<close> when the event cannot
  happen in the state; otherwise it gives the value the call returns at this step, if it
  returns, and the next state. What the kernel guarantees around the driver is part of
  the guards: \<open>kzalloc\<close> returns an address not in use; a thread is in one call at a time;
  \<open>ioctl\<close> and \<open>release\<close> are called on an open file; \<open>release\<close> is called once the last
  reference to the file is gone, so no \<open>ioctl\<close> on it is in flight.
\<close>

datatype event =
    EvOpen "nat option"
  | EvIoctl nat nat nat int
  | EvWake nat
  | EvInterrupt nat
  | EvLocked nat
  | EvSignal nat
  | EvUnlocked nat
  | EvClose nat nat
  | EvCloseCheck nat
  | EvCloseSignal nat

fun step :: "event \<Rightarrow> dmapp_state \<Rightarrow> (int option \<times> dmapp_state) option" where
  "step (EvOpen alloc) s =
     (case alloc of
        None \<Rightarrow> Some (Some (fst (dmapp_cdev_open None s)), snd (dmapp_cdev_open None s))
      | Some u \<Rightarrow>
          if mem s u = None
          then Some (Some (fst (dmapp_cdev_open (Some u) s)), snd (dmapp_cdev_open (Some u) s))
          else None)"
| "step (EvIoctl t u cmd fd) s =
     (if map_of (calls s) t = None \<and> mem s u \<noteq> None
      then Some (dmapp_cdev_ioctl_validate t u cmd fd s) else None)"
| "step (EvWake t) s =
     (case map_of (calls s) t of
        Some (LockWait u p w) \<Rightarrow> dmapp_cdev_ioctl_woken t u p w s
      | _ \<Rightarrow> None)"
| "step (EvInterrupt t) s =
     (case map_of (calls s) t of
        Some (LockWait u p w) \<Rightarrow> Some (dmapp_cdev_ioctl_interrupted t s)
      | _ \<Rightarrow> None)"
| "step (EvLocked t) s =
     (case map_of (calls s) t of
        Some (LockWoken u p w) \<Rightarrow> Some (dmapp_cdev_ioctl_locked t u p w s)
      | _ \<Rightarrow> None)"
| "step (EvSignal t) s =
     (case map_of (calls s) t of
        Some (UnlockSignal u f) \<Rightarrow> Some (dmapp_cdev_ioctl_signal t u f s)
      | _ \<Rightarrow> None)"
| "step (EvUnlocked t) s =
     (case map_of (calls s) t of
        Some (UnlockClear u r) \<Rightarrow> Some (dmapp_cdev_ioctl_unlocked t u r s)
      | _ \<Rightarrow> None)"
| "step (EvClose t u) s =
     (if map_of (calls s) t = None \<and> mem s u \<noteq> None \<and> \<not> busy s u
      then Some (dmapp_cdev_release_disconnect t u s) else None)"
| "step (EvCloseCheck t) s =
     (case map_of (calls s) t of
        Some (ReleaseCheck f) \<Rightarrow> Some (dmapp_cdev_release_check t f s)
      | _ \<Rightarrow> None)"
| "step (EvCloseSignal t) s =
     (case map_of (calls s) t of
        Some (ReleaseSignal f) \<Rightarrow> Some (dmapp_cdev_release_signal t f s)
      | _ \<Rightarrow> None)"

fun run :: "event list \<Rightarrow> dmapp_state \<Rightarrow> dmapp_state option" where
  "run [] s = Some s"
| "run (e # es) s = (case step e s of None \<Rightarrow> None | Some (r, s') \<Rightarrow> run es s')"

text \<open>
  The values returned along a run, in order, each with the event that returned it.
\<close>

fun returns :: "event list \<Rightarrow> dmapp_state \<Rightarrow> (event \<times> int) list" where
  "returns [] s = []"
| "returns (e # es) s =
     (case step e s of
        None \<Rightarrow> []
      | Some (r, s') \<Rightarrow> (case r of None \<Rightarrow> [] | Some v \<Rightarrow> [(e, v)]) @ returns es s')"

text \<open>
  A participant is a single caller when it has one lock or unlock call in flight on its
  file at most, as the repository's client has (one loop of lock, work, unlock): while
  a call of it is in flight, its further calls are only such as return at once, the
  queries and the lock or unlock that finds nothing to do. \<open>single_caller\<close> holds of the
  events such participants can produce.
\<close>

fun single_caller :: "event \<Rightarrow> dmapp_state \<Rightarrow> bool" where
  "single_caller (EvIoctl t u cmd fd) s =
     (\<not> busy s u \<or> fst (dmapp_cdev_ioctl_validate t u cmd fd s) \<noteq> None)"
| "single_caller e s = True"

fun run1 :: "event list \<Rightarrow> dmapp_state \<Rightarrow> dmapp_state option" where
  "run1 [] s = Some s"
| "run1 (e # es) s =
     (if single_caller e s
      then (case step e s of None \<Rightarrow> None | Some (r, s') \<Rightarrow> run1 es s')
      else None)"

text \<open>
  A lock call takes the turn when it executes lines 287 to 292; \<open>acquired\<close> is the
  parity of the call that does so at this event, \<open>signalled\<close> the fence an unlock or
  a release signals at this event.
\<close>

definition acquired :: "event \<Rightarrow> dmapp_state \<Rightarrow> nat option" where
  "acquired e s =
     (case e of
        EvLocked t \<Rightarrow>
          (case map_of (calls s) t of Some (LockWoken u p w) \<Rightarrow> Some p | _ \<Rightarrow> None)
      | _ \<Rightarrow> None)"

definition signalled :: "event \<Rightarrow> dmapp_state \<Rightarrow> nat option" where
  "signalled e s =
     (case e of
        EvSignal t \<Rightarrow>
          (case map_of (calls s) t of Some (UnlockSignal u f) \<Rightarrow> Some f | _ \<Rightarrow> None)
      | EvCloseSignal t \<Rightarrow>
          (case map_of (calls s) t of Some (ReleaseSignal f) \<Rightarrow> Some f | _ \<Rightarrow> None)
      | _ \<Rightarrow> None)"

text \<open>
  The events at which the driver writes an error line with \<open>pr_err\<close>: a third open (line
  140), an ioctl of a user in neither slot (line 239), a negative \<open>dma_buf_fd\<close> (line 275),
  an interrupted wait (line 284), a failed \<open>dma_fence_signal\<close> in unlock (line 300) and in
  release (line 191), and an unknown command (line 309).
\<close>

definition pr_err :: "event \<Rightarrow> dmapp_state \<Rightarrow> bool" where
  "pr_err e s =
     (case e of
        EvOpen alloc \<Rightarrow> alloc \<noteq> None \<and> user s 0 \<noteq> None \<and> user s 1 \<noteq> None
      | EvIoctl t u cmd fd \<Rightarrow>
          (if user s 0 \<noteq> Some u \<and> user s 1 \<noteq> Some u then True
           else if cmd = DMAPP_IOCTL_BUFFER_LOCK \<and> locked s u then False
           else if cmd = DMAPP_IOCTL_BUFFER_UNLOCK \<and> \<not> locked s u then False
           else if cmd = DMAPP_IOCTL_GET_BUFFER_SIZE then False
           else if cmd = DMAPP_IOCTL_GET_BUFFER_PARITY then False
           else if cmd = DMAPP_IOCTL_GET_BUFFER_FD then fd < 0
           else if cmd = DMAPP_IOCTL_BUFFER_LOCK then False
           else if cmd = DMAPP_IOCTL_BUFFER_UNLOCK then False
           else True)
      | EvInterrupt t \<Rightarrow>
          (case map_of (calls s) t of Some (LockWait u p w) \<Rightarrow> True | _ \<Rightarrow> False)
      | EvSignal t \<Rightarrow>
          (case map_of (calls s) t of
             Some (UnlockSignal u f) \<Rightarrow> fst (dma_fence_signal f s) < 0
           | _ \<Rightarrow> False)
      | EvCloseSignal t \<Rightarrow>
          (case map_of (calls s) t of
             Some (ReleaseSignal f) \<Rightarrow> fst (dma_fence_signal f s) < 0
           | _ \<Rightarrow> False)
      | _ \<Rightarrow> False)"

fun acquires :: "event list \<Rightarrow> dmapp_state \<Rightarrow> nat list" where
  "acquires [] s = []"
| "acquires (e # es) s =
     (case step e s of
        None \<Rightarrow> []
      | Some (r, s') \<Rightarrow>
          (case acquired e s of None \<Rightarrow> [] | Some p \<Rightarrow> [p]) @ acquires es s')"

fun signals :: "event list \<Rightarrow> dmapp_state \<Rightarrow> nat list" where
  "signals [] s = []"
| "signals (e # es) s =
     (case step e s of
        None \<Rightarrow> []
      | Some (r, s') \<Rightarrow>
          (case signalled e s of None \<Rightarrow> [] | Some f \<Rightarrow> [f]) @ signals es s')"

fun alternates :: "nat \<Rightarrow> nat list \<Rightarrow> bool" where
  "alternates b [] = True"
| "alternates b (p # ps) = (p = b \<and> alternates (1 - b) ps)"

text \<open>
  The handoffs of a run, in order: \<open>Acquire p\<close> when a lock of parity \<open>p\<close> takes the turn,
  \<open>Handover f\<close> when an unlock or a release signals \<open>fence[f]\<close>. \<open>protocol at_fence b\<close>
  holds of the sequences that the ping-pong allows from a state whose token is at
  \<open>fence[b]\<close> (\<open>at_fence\<close>) or with a holder about to signal \<open>fence[b]\<close>: an acquire of
  parity \<open>b\<close> can only follow a handover to \<open>fence[b]\<close>, and the next handover is to the
  other fence.
\<close>

datatype handoff = Acquire nat | Handover nat

fun handoffs :: "event list \<Rightarrow> dmapp_state \<Rightarrow> handoff list" where
  "handoffs [] s = []"
| "handoffs (e # es) s =
     (case step e s of
        None \<Rightarrow> []
      | Some (r, s') \<Rightarrow>
          (case acquired e s of
             Some p \<Rightarrow> [Acquire p]
           | None \<Rightarrow> (case signalled e s of Some f \<Rightarrow> [Handover f] | None \<Rightarrow> []))
          @ handoffs es s')"

fun protocol :: "bool \<Rightarrow> nat \<Rightarrow> handoff list \<Rightarrow> bool" where
  "protocol at_fence b [] = True"
| "protocol at_fence b (Acquire p # hs) = (at_fence \<and> p = b \<and> protocol False (1 - b) hs)"
| "protocol at_fence b (Handover f # hs) = (\<not> at_fence \<and> f = b \<and> protocol True b hs)"

section \<open>The turn token\<close>

text \<open>
  The probe's calls all succeeding, and the state the probe then returns.
\<close>

definition env_ok :: probe_env where
  "env_ok = \<lparr>dev_alloc = True, chrdev_ret = 0, device_err = None, fence0_alloc = True,
     fence1_alloc = True, buffer_alloc = True, coherent_alloc = True, export_err = None,
     cdev_add_ret = 0\<rparr>"

definition attached :: dmapp_state where
  "attached = \<lparr>user = (\<lambda>i. None), fence = (\<lambda>i. Pending)(1 := Signaled),
     mem = (\<lambda>a. None), calls = []\<rparr>"

text \<open>
  \<open>flag s i\<close> is the \<open>is_locked\<close> flag of the participant in slot \<open>i\<close>. That participant
  is inside its turn, \<open>in_turn s i\<close>, when the flag is set and no unlock of its own has
  already signalled the other side (an unlock between its signal and the clearing of the
  flag is a frame \<open>UnlockClear\<close>). A release that chose a fence to signal and has not
  signalled it yet carries the turn of the user it freed: \<open>abandons\<close> is that fence.
\<close>

fun clears :: "nat \<Rightarrow> frame \<Rightarrow> bool" where
  "clears u (UnlockClear v r) = (v = u)"
| "clears u fr = False"

fun abandons :: "frame \<Rightarrow> nat option" where
  "abandons (ReleaseCheck f) = f"
| "abandons (ReleaseSignal f) = Some f"
| "abandons fr = None"

definition abandoning :: "frame \<Rightarrow> bool" where
  "abandoning fr = (abandons fr \<noteq> None)"

definition clearing :: "dmapp_state \<Rightarrow> nat \<Rightarrow> bool" where
  "clearing s u = (\<exists>c \<in> set (calls s). clears u (snd c))"

definition flag :: "dmapp_state \<Rightarrow> nat \<Rightarrow> bool" where
  "flag s i = (case user s i of None \<Rightarrow> False | Some u \<Rightarrow> locked s u)"

definition in_turn :: "dmapp_state \<Rightarrow> nat \<Rightarrow> bool" where
  "in_turn s i = (case user s i of None \<Rightarrow> False | Some u \<Rightarrow> locked s u \<and> \<not> clearing s u)"

definition signaled_fences :: "dmapp_state \<Rightarrow> nat" where
  "signaled_fences s = of_bool (fence s 0 = Signaled) + of_bool (fence s 1 = Signaled)"

definition flags :: "dmapp_state \<Rightarrow> nat" where
  "flags s = of_bool (flag s 0) + of_bool (flag s 1)"

text \<open>
  The turn tokens of a state: the signalled fences, the participants inside their turn
  and the releases that still have a fence to signal. \<open>heading k s\<close> counts the tokens
  that are at fence \<open>k\<close> or on their way to it: the fence itself when signalled, the
  participant of the other slot inside its turn (its unlock signals fence \<open>k\<close>), and the
  releases about to signal fence \<open>k\<close>. The next call to take the turn from such a token is
  of parity \<open>k\<close>.
\<close>

definition tokens :: "dmapp_state \<Rightarrow> nat" where
  "tokens s = signaled_fences s + of_bool (in_turn s 0) + of_bool (in_turn s 1)
     + length (filter (\<lambda>c. abandoning (snd c)) (calls s))"

definition heading :: "nat \<Rightarrow> dmapp_state \<Rightarrow> nat" where
  "heading k s = of_bool (fence s k = Signaled) + of_bool (in_turn s (1 - k))
     + length (filter (\<lambda>c. abandons (snd c) = Some k) (calls s))"

text \<open>
  A state is quiet when no unlock is between its signal and the clearing of its flag and
  no release is between the disconnect and its signal.
\<close>

fun handing_over :: "frame \<Rightarrow> bool" where
  "handing_over (UnlockClear u r) = True"
| "handing_over fr = abandoning fr"

definition quiet :: "dmapp_state \<Rightarrow> bool" where
  "quiet s = (\<not> (\<exists>c \<in> set (calls s). handing_over (snd c)))"

text \<open>
  What every frame in flight knows about the state, and the invariant of the states that
  single callers reach: threads have one frame each, every frame is right about the
  state, a user has one ioctl in flight at most, the users in the slots are allocated and
  differ, and there is one token.
\<close>

fun frame_ok :: "dmapp_state \<Rightarrow> frame \<Rightarrow> bool" where
  "frame_ok s (LockWait u p w) = (p < 2 \<and> w = p \<and> user s p = Some u \<and> \<not> locked s u)"
| "frame_ok s (LockWoken u p w) =
     (p < 2 \<and> w = p \<and> user s p = Some u \<and> \<not> locked s u \<and> fence s w = Signaled)"
| "frame_ok s (UnlockSignal u f) = (f < 2 \<and> user s (1 - f) = Some u \<and> locked s u)"
| "frame_ok s (UnlockClear u r) = ((user s 0 = Some u \<or> user s 1 = Some u) \<and> locked s u)"
| "frame_ok s (ReleaseCheck f) = (case f of None \<Rightarrow> True | Some i \<Rightarrow> i < 2)"
| "frame_ok s (ReleaseSignal f) = (f < 2)"

definition turn_inv :: "dmapp_state \<Rightarrow> bool" where
  "turn_inv s =
     (distinct (map fst (calls s)) \<and>
      (\<forall>c \<in> set (calls s). frame_ok s (snd c)) \<and>
      (\<forall>c \<in> set (calls s). \<forall>d \<in> set (calls s).
         frame_user (snd c) \<noteq> None \<and> frame_user (snd c) = frame_user (snd d) \<longrightarrow> c = d) \<and>
      (\<forall>u. user s 0 = Some u \<or> user s 1 = Some u \<longrightarrow> mem s u \<noteq> None) \<and>
      (\<forall>u. user s 0 = Some u \<longrightarrow> user s 1 \<noteq> Some u) \<and>
      heading 0 s + heading 1 s = 1)"

text \<open>
  \<open>registered s u p\<close>: the open file whose user struct is \<open>u\<close> is the participant of
  parity \<open>p\<close>, as the ioctl finds it (slot 0 is compared first).
\<close>

definition registered :: "dmapp_state \<Rightarrow> nat \<Rightarrow> nat \<Rightarrow> bool" where
  "registered s u p =
     (p < 2 \<and> user s p = Some u \<and> (p = 1 \<longrightarrow> user s 0 \<noteq> Some u) \<and> mem s u \<noteq> None)"

section \<open>Scenarios\<close>

text \<open>
  Runs used to exercise the theorems below. User 1 opens first and gets slot 0, user 2
  gets slot 1; threads 11 and 12 carry their calls. In \<open>first_turn\<close> both ask for the
  lock and the call of user 2 takes the turn. In \<open>three_turns\<close> the turn then goes to
  user 1 and back. In \<open>both_flags\<close> user 1 takes the turn while the unlock of user 2 has
  signalled and not yet cleared its flag. In \<open>abandoned\<close> user 2 closes its file inside
  its turn.
\<close>

definition opened :: "event list" where
  "opened = [EvOpen (Some 1), EvOpen (Some 2)]"

definition first_turn :: "event list" where
  "first_turn = opened @
     [EvIoctl 11 1 DMAPP_IOCTL_BUFFER_LOCK 0, EvIoctl 12 2 DMAPP_IOCTL_BUFFER_LOCK 0,
      EvWake 12, EvLocked 12]"

text \<open>
  In \<open>queried\<close> a second thread of user 1 asks for the parity while the lock of user 1 is
  asleep, and a second thread of user 2 asks for the lock inside the turn of user 2:
  both calls return at once.
\<close>

definition queried :: "event list" where
  "queried = first_turn @
     [EvIoctl 13 1 DMAPP_IOCTL_GET_BUFFER_PARITY 0, EvIoctl 14 2 DMAPP_IOCTL_BUFFER_LOCK 0,
      EvIoctl 12 2 DMAPP_IOCTL_BUFFER_UNLOCK 0, EvSignal 12,
      EvIoctl 14 2 DMAPP_IOCTL_GET_BUFFER_SIZE 0, EvUnlocked 12, EvWake 11, EvLocked 11]"

definition three_turns :: "event list" where
  "three_turns = first_turn @
     [EvIoctl 12 2 DMAPP_IOCTL_BUFFER_UNLOCK 0, EvSignal 12, EvUnlocked 12,
      EvWake 11, EvLocked 11,
      EvIoctl 12 2 DMAPP_IOCTL_BUFFER_LOCK 0,
      EvIoctl 11 1 DMAPP_IOCTL_BUFFER_UNLOCK 0, EvSignal 11, EvUnlocked 11,
      EvWake 12, EvLocked 12]"

definition both_flags :: "event list" where
  "both_flags = first_turn @
     [EvIoctl 12 2 DMAPP_IOCTL_BUFFER_UNLOCK 0, EvSignal 12, EvWake 11, EvLocked 11]"

definition abandoned :: "event list" where
  "abandoned = first_turn @ [EvClose 12 2]"

text \<open>
  Runs that stop inside a call that moves the token: in \<open>woken\<close> the lock of user 2 has
  returned from its wait, in \<open>unlocking\<close> the unlock of user 2 is about to signal, in
  \<open>abandoning_turn\<close> the release of user 2 has tested \<open>fence[0]\<close> and is about to signal
  it.
\<close>

definition woken :: "event list" where
  "woken = opened @
     [EvIoctl 11 1 DMAPP_IOCTL_BUFFER_LOCK 0, EvIoctl 12 2 DMAPP_IOCTL_BUFFER_LOCK 0,
      EvWake 12]"

definition unlocking :: "event list" where
  "unlocking = first_turn @ [EvIoctl 12 2 DMAPP_IOCTL_BUFFER_UNLOCK 0]"

definition abandoning_turn :: "event list" where
  "abandoning_turn = abandoned @ [EvCloseCheck 12]"

text \<open>
  The states after \<open>opened\<close> and after \<open>first_turn\<close>: both users registered; then user 2
  inside its turn, both fences pending, and the lock of user 1 asleep on \<open>fence[0]\<close>.
\<close>

definition ready :: dmapp_state where
  "ready = \<lparr>user = (\<lambda>i. None)(0 := Some 1, 1 := Some 2),
     fence = (\<lambda>i. Pending)(1 := Signaled),
     mem = (\<lambda>a. None)(1 := Some \<lparr>is_locked = False\<rparr>, 2 := Some \<lparr>is_locked = False\<rparr>),
     calls = []\<rparr>"

definition in_first_turn :: dmapp_state where
  "in_first_turn = \<lparr>user = (\<lambda>i. None)(0 := Some 1, 1 := Some 2),
     fence = (\<lambda>i. Pending),
     mem = (\<lambda>a. None)(1 := Some \<lparr>is_locked = False\<rparr>, 2 := Some \<lparr>is_locked = True\<rparr>),
     calls = [(11, LockWait 1 0 0)]\<rparr>"

text \<open>
  Runs in which user 2 has two calls in flight at once on its file (threads 12 and 13,
  or 13 and 14), which a participant with more than one thread can do. In \<open>two_locks\<close>
  both are locks and both wake on the one signal of \<open>fence[1]\<close>. In the others both are
  unlocks. In \<open>dup_unlock\<close> the second signal finds \<open>fence[0]\<close> signalled by the first
  (\<open>dup_unlock_pre\<close> stops before it). In \<open>two_tokens\<close> the second signal comes late, after
  user 1 has taken the turn from the first, and leaves \<open>fence[0]\<close> signalled while user 1
  is inside its turn. From there, in \<open>dup_release_pre\<close> user 1 hands over to user 2, in
  \<open>dup_release\<close> user 2 then closes its file inside its turn, and in \<open>overlap\<close> user 1 takes
  the turn again instead, while user 2 is inside its own. In \<open>late_release\<close> user 1 closes
  its file inside its turn after \<open>two_tokens\<close>, and between the test and the signal of
  the release a new user 3 of parity 0 takes a turn and signals \<open>fence[1]\<close>
  (\<open>late_release_pre\<close> stops before the signal of the release).
\<close>

definition two_locks :: "event list" where
  "two_locks = opened @
     [EvIoctl 12 2 DMAPP_IOCTL_BUFFER_LOCK 0, EvIoctl 13 2 DMAPP_IOCTL_BUFFER_LOCK 0,
      EvWake 12, EvWake 13, EvLocked 12, EvLocked 13]"

definition dup_unlock_pre :: "event list" where
  "dup_unlock_pre = opened @
     [EvIoctl 12 2 DMAPP_IOCTL_BUFFER_LOCK 0, EvWake 12, EvLocked 12,
      EvIoctl 13 2 DMAPP_IOCTL_BUFFER_UNLOCK 0, EvIoctl 14 2 DMAPP_IOCTL_BUFFER_UNLOCK 0,
      EvSignal 13]"

definition dup_unlock :: "event list" where
  "dup_unlock = dup_unlock_pre @ [EvSignal 14, EvUnlocked 14]"

definition two_tokens :: "event list" where
  "two_tokens = dup_unlock_pre @
     [EvUnlocked 13,
      EvIoctl 11 1 DMAPP_IOCTL_BUFFER_LOCK 0, EvWake 11, EvLocked 11,
      EvSignal 14, EvUnlocked 14]"

definition dup_release_pre :: "event list" where
  "dup_release_pre = two_tokens @
     [EvIoctl 11 1 DMAPP_IOCTL_BUFFER_UNLOCK 0, EvSignal 11, EvUnlocked 11,
      EvIoctl 12 2 DMAPP_IOCTL_BUFFER_LOCK 0, EvWake 12, EvLocked 12]"

definition dup_release :: "event list" where
  "dup_release = dup_release_pre @ [EvClose 12 2]"

definition overlap :: "event list" where
  "overlap = dup_release_pre @
     [EvIoctl 11 1 DMAPP_IOCTL_BUFFER_LOCK 0, EvWake 11, EvLocked 11]"

definition late_release_pre :: "event list" where
  "late_release_pre = two_tokens @
     [EvClose 11 1, EvCloseCheck 11,
      EvOpen (Some 3),
      EvIoctl 15 3 DMAPP_IOCTL_BUFFER_LOCK 0, EvWake 15, EvLocked 15,
      EvIoctl 15 3 DMAPP_IOCTL_BUFFER_UNLOCK 0, EvSignal 15, EvUnlocked 15]"

definition late_release :: "event list" where
  "late_release = late_release_pre @ [EvCloseSignal 11]"

section \<open>Frames of calls in flight\<close>

lemma two: "(i::nat) < 2 \<longleftrightarrow> i = 0 \<or> i = 1"
  by auto

lemma set_put_del: "set (put t fr cs) = insert (t, fr) (set (del t cs))"
  by (auto simp: put_def del_def)

lemma in_del: "c \<in> set (del t cs) \<longleftrightarrow> c \<in> set cs \<and> fst c \<noteq> t"
  by (auto simp: del_def)

lemma distinct_del: "distinct (map fst cs) \<Longrightarrow> distinct (map fst (del t cs))"
  by (simp add: del_def distinct_map_filter)

lemma distinct_put: "distinct (map fst cs) \<Longrightarrow> distinct (map fst (put t fr cs))"
  by (auto simp: put_def distinct_map_filter)

lemma count_put:
  "length (filter P (put t fr cs)) = of_bool (P (t, fr)) + length (filter P (del t cs))"
  by (simp add: put_def del_def)

lemma del_None: "map_of cs t = None \<Longrightarrow> del t cs = cs"
  by (auto simp: del_def filter_id_conv map_of_eq_None_iff image_iff)

lemma count_del_Some:
  "distinct (map fst cs) \<Longrightarrow> map_of cs t = Some fr \<Longrightarrow>
   length (filter P cs) = of_bool (P (t, fr)) + length (filter P (del t cs))"
proof (induction cs)
  case Nil
  then show ?case by simp
next
  case (Cons c cs)
  show ?case
  proof (cases "fst c = t")
    case True
    with Cons.prems have "c = (t, fr)" by (cases c) auto
    moreover from Cons.prems True have "del t cs = cs"
      by (auto simp: del_def filter_id_conv image_iff)
    ultimately show ?thesis by (simp add: del_def)
  next
    case False
    with Cons show ?thesis by (cases c) (auto simp: del_def)
  qed
qed

lemma calls_at:
  assumes "distinct (map fst cs)" "map_of cs t = Some fr0"
  shows "set cs = insert (t, fr0) (set (del t cs))"
  using assms by (auto simp: in_del dest: map_of_SomeD) (metis map_of_is_SomeI option.inject)

lemma locked_upd [simp]:
  "locked (s\<lparr>calls := cs\<rparr>) u = locked s u"
  "locked (s\<lparr>fence := fs\<rparr>) u = locked s u"
  "locked (s\<lparr>user := us\<rparr>) u = locked s u"
  by (simp_all add: locked_def)

lemma frame_ok_calls [simp]: "frame_ok (s\<lparr>calls := cs\<rparr>) fr = frame_ok s fr"
  by (cases fr) auto

lemma frame_ok_pres:
  assumes "frame_ok s fr"
    and "\<And>u. frame_user fr = Some u \<Longrightarrow> locked s' u = locked s u"
    and "\<And>u p. frame_user fr = Some u \<Longrightarrow> user s p = Some u \<Longrightarrow> user s' p = Some u"
    and "\<And>u p w. fr = LockWoken u p w \<Longrightarrow> fence s' w = Signaled"
  shows "frame_ok s' fr"
  using assms by (cases fr) auto

lemma frame_slot:
  "frame_ok s fr \<Longrightarrow> frame_user fr = Some v \<Longrightarrow> \<exists>p<2. user s p = Some v"
  by (cases fr) (auto simp: two)

lemma clears_user: "clears v fr \<Longrightarrow> frame_user fr = Some v"
  by (cases fr) auto

lemma abandons_user: "abandons fr = Some k \<Longrightarrow> frame_user fr = None"
  by (cases fr) auto

lemma busy_iff: "busy s u \<longleftrightarrow> (\<exists>c \<in> set (calls s). frame_user (snd c) = Some u)"
  unfolding busy_def set_map image_iff by (rule bex_cong [OF refl]) (rule eq_commute)

lemma not_busy_not_clearing: "\<not> busy s u \<Longrightarrow> \<not> clearing s u"
  using clears_user by (fastforce simp: busy_iff clearing_def)

lemma in_turn_cong:
  "user s' i = user s i \<Longrightarrow>
   (\<And>v. user s i = Some v \<Longrightarrow> locked s' v = locked s v \<and> clearing s' v = clearing s v) \<Longrightarrow>
   in_turn s' i = in_turn s i"
  by (auto simp: in_turn_def split: option.splits)

section \<open>The invariant, by parts\<close>

lemma turn_invI:
  "distinct (map fst (calls s)) \<Longrightarrow> \<forall>c \<in> set (calls s). frame_ok s (snd c) \<Longrightarrow>
   \<forall>c \<in> set (calls s). \<forall>d \<in> set (calls s).
      frame_user (snd c) \<noteq> None \<and> frame_user (snd c) = frame_user (snd d) \<longrightarrow> c = d \<Longrightarrow>
   \<forall>u. user s 0 = Some u \<or> user s 1 = Some u \<longrightarrow> mem s u \<noteq> None \<Longrightarrow>
   \<forall>u. user s 0 = Some u \<longrightarrow> user s 1 \<noteq> Some u \<Longrightarrow>
   heading 0 s + heading 1 s = 1 \<Longrightarrow> turn_inv s"
  by (simp add: turn_inv_def)

lemma invD_distinct: "turn_inv s \<Longrightarrow> distinct (map fst (calls s))"
  by (simp add: turn_inv_def)

lemma invD_frame: "turn_inv s \<Longrightarrow> c \<in> set (calls s) \<Longrightarrow> frame_ok s (snd c)"
  by (simp add: turn_inv_def)

lemma invD_unique:
  "turn_inv s \<Longrightarrow> c \<in> set (calls s) \<Longrightarrow> d \<in> set (calls s) \<Longrightarrow>
   frame_user (snd c) = Some u \<Longrightarrow> frame_user (snd d) = Some u \<Longrightarrow> c = d"
  unfolding turn_inv_def by (elim conjE) (drule (1) bspec, drule (1) bspec, simp)

lemma invD_heading: "turn_inv s \<Longrightarrow> heading 0 s + heading 1 s = 1"
  by (simp add: turn_inv_def)

lemma invD_mem: "turn_inv s \<Longrightarrow> user s i = Some u \<Longrightarrow> i < 2 \<Longrightarrow> mem s u \<noteq> None"
  by (auto simp: turn_inv_def two)

lemma invD_slots:
  "turn_inv s \<Longrightarrow> user s i = Some u \<Longrightarrow> user s j = Some u \<Longrightarrow> i < 2 \<Longrightarrow> j < 2 \<Longrightarrow> i = j"
  by (auto simp: turn_inv_def two)

lemma inv_at:
  assumes "turn_inv s" "map_of (calls s) t = Some fr0"
  shows "set (calls s) = insert (t, fr0) (set (del t (calls s)))"
    and "length (filter P (calls s)) = of_bool (P (t, fr0)) + length (filter P (del t (calls s)))"
    and "frame_ok s fr0"
    and "(t, fr0) \<in> set (calls s)"
proof -
  from assms(1) have d: "distinct (map fst (calls s))" by (rule invD_distinct)
  show "set (calls s) = insert (t, fr0) (set (del t (calls s)))"
    using d assms(2) by (rule calls_at)
  show "length (filter P (calls s)) = of_bool (P (t, fr0)) + length (filter P (del t (calls s)))"
    using d assms(2) by (rule count_del_Some)
  show m: "(t, fr0) \<in> set (calls s)" using assms(2) by (rule map_of_SomeD)
  show "frame_ok s fr0" using invD_frame [OF assms(1) m] by simp
qed

lemma rest_other:
  assumes "turn_inv s" "map_of (calls s) t = Some fr0" "frame_user fr0 = Some u"
    "c \<in> set (del t (calls s))"
  shows "frame_user (snd c) \<noteq> Some u"
proof
  assume "frame_user (snd c) = Some u"
  moreover from assms(4) have "c \<in> set (calls s)" "fst c \<noteq> t" by (simp_all add: in_del)
  moreover from assms(1,2) have "(t, fr0) \<in> set (calls s)" by (rule inv_at)
  ultimately have "c = (t, fr0)" using assms(1,3) invD_unique [of s c "(t, fr0)" u] by simp
  with \<open>fst c \<noteq> t\<close> show False by simp
qed

lemma clearing_at:
  assumes "turn_inv s" "map_of (calls s) t = Some fr0"
  shows "clearing s v = (clears v fr0 \<or> (\<exists>c \<in> set (del t (calls s)). clears v (snd c)))"
  unfolding clearing_def inv_at(1) [OF assms] by simp

lemma rest_not_clearing:
  assumes "turn_inv s" "map_of (calls s) t = Some fr0" "frame_user fr0 = Some u"
  shows "\<not> (\<exists>c \<in> set (del t (calls s)). clears u (snd c))"
  using rest_other [OF assms] clears_user by blast

text \<open>One token: nothing else is signalled, held or abandoned beside it.\<close>

lemma heading_split:
  "heading 0 s + heading 1 s
     = signaled_fences s + of_bool (in_turn s 0) + of_bool (in_turn s 1)
       + (length (filter (\<lambda>c. abandons (snd c) = Some 0) (calls s))
          + length (filter (\<lambda>c. abandons (snd c) = Some 1) (calls s)))"
  by (simp add: heading_def signaled_fences_def)

lemma abandoning_count:
  "\<forall>c \<in> set cs. frame_ok s (snd c) \<Longrightarrow>
   length (filter (\<lambda>c. abandoning (snd c)) cs)
     = length (filter (\<lambda>c. abandons (snd c) = Some 0) cs)
       + length (filter (\<lambda>c. abandons (snd c) = Some 1) cs)"
proof (induction cs)
  case Nil
  then show ?case by simp
next
  case (Cons c cs)
  from Cons.prems have "frame_ok s (snd c)" by simp
  then have "abandoning (snd c) \<longleftrightarrow> abandons (snd c) = Some 0 \<or> abandons (snd c) = Some 1"
    by (cases "snd c") (auto simp: abandoning_def two split: option.splits)
  with Cons show ?case by auto
qed

lemma tokens_heading: "turn_inv s \<Longrightarrow> tokens s = heading 0 s + heading 1 s"
  unfolding heading_split tokens_def
  using abandoning_count [of "calls s" s] by (simp add: turn_inv_def)

lemma inv_tokens: "turn_inv s \<Longrightarrow> tokens s = 1"
  using tokens_heading [of s] invD_heading [of s] by simp

lemma holder_no_signal:
  assumes "turn_inv s" "in_turn s p" "p < 2"
  shows "signaled_fences s = 0"
  using inv_tokens [OF assms(1)] assms(2,3) by (auto simp: tokens_def two)

lemma abandon_no_signal:
  assumes i: "turn_inv s" and fr0: "map_of (calls s) t = Some fr0" and a: "abandoning fr0"
  shows "signaled_fences s = 0"
  using inv_tokens [OF i] a inv_at(2) [OF i fr0, of "\<lambda>c. abandoning (snd c)"]
  by (simp add: tokens_def)

lemma no_signal_pending: "signaled_fences s = 0 \<Longrightarrow> f < 2 \<Longrightarrow> fence s f \<noteq> Signaled"
  by (auto simp: signaled_fences_def two split: if_splits)

section \<open>A step of an ioctl in flight\<close>

lemma ioctl_step_frames:
  assumes i: "turn_inv s" and fr0: "map_of (calls s) t = Some fr0" and u: "frame_user fr0 = Some u"
    and cs: "calls s' = (case new of None \<Rightarrow> del t (calls s) | Some fr1 \<Rightarrow> put t fr1 (calls s))"
    and new: "\<And>fr1. new = Some fr1 \<Longrightarrow> frame_user fr1 = Some u \<and> frame_ok s' fr1"
    and us: "user s' = user s"
    and me: "\<And>v. v \<noteq> u \<Longrightarrow> mem s' v = mem s v" "mem s' u \<noteq> None"
    and fe: "\<And>i. fence s i = Signaled \<Longrightarrow> user s i \<noteq> Some u \<Longrightarrow> fence s' i = Signaled"
  shows "distinct (map fst (calls s'))"
    and "\<forall>c \<in> set (calls s'). frame_ok s' (snd c)"
    and "\<forall>c \<in> set (calls s'). \<forall>d \<in> set (calls s').
         frame_user (snd c) \<noteq> None \<and> frame_user (snd c) = frame_user (snd d) \<longrightarrow> c = d"
    and "\<forall>u. user s' 0 = Some u \<or> user s' 1 = Some u \<longrightarrow> mem s' u \<noteq> None"
    and "\<forall>u. user s' 0 = Some u \<longrightarrow> user s' 1 \<noteq> Some u"
proof -
  let ?R = "del t (calls s)"
  show "distinct (map fst (calls s'))"
    using invD_distinct [OF i] by (simp add: cs distinct_put distinct_del split: option.split)
  have rest: "frame_ok s' (snd c) \<and> frame_user (snd c) \<noteq> Some u" if c: "c \<in> set ?R" for c
  proof -
    have ne: "frame_user (snd c) \<noteq> Some u" by (rule rest_other [OF i fr0 u c])
    from c have okc: "frame_ok s (snd c)" using invD_frame [OF i] by (simp add: in_del)
    then have "frame_ok s' (snd c)"
    proof (rule frame_ok_pres)
      fix v assume "frame_user (snd c) = Some v"
      with ne have "v \<noteq> u" by auto
      then show "locked s' v = locked s v" by (simp add: locked_def me)
    next
      fix v p assume "user s p = Some v" then show "user s' p = Some v" by (simp add: us)
    next
      fix v p w assume eq: "snd c = LockWoken v p w"
      with okc ne have "fence s w = Signaled" "user s w \<noteq> Some u" by auto
      then show "fence s' w = Signaled" by (rule fe)
    qed
    with ne show ?thesis by simp
  qed
  have alt: "x \<in> set ?R \<or> (\<exists>fr1. new = Some fr1 \<and> x = (t, fr1))"
    if "x \<in> set (calls s')" for x
    using that by (cases new) (auto simp: cs set_put_del)
  show "\<forall>c \<in> set (calls s'). frame_ok s' (snd c)"
  proof
    fix c assume "c \<in> set (calls s')"
    from alt [OF this] show "frame_ok s' (snd c)"
    proof (elim disjE exE conjE)
      assume "c \<in> set ?R" then show ?thesis using rest by blast
    next
      fix fr1 assume "new = Some fr1" "c = (t, fr1)" then show ?thesis using new [of fr1] by simp
    qed
  qed
  have uq: "c = d" if "c \<in> set ?R" "d \<in> set ?R"
    "frame_user (snd c) = Some v" "frame_user (snd d) = Some v" for c d v
    using that invD_unique [OF i, of c d v] by (simp add: in_del)
  show "\<forall>c \<in> set (calls s'). \<forall>d \<in> set (calls s').
         frame_user (snd c) \<noteq> None \<and> frame_user (snd c) = frame_user (snd d) \<longrightarrow> c = d"
  proof (intro ballI impI)
    fix c d assume c: "c \<in> set (calls s')" and d: "d \<in> set (calls s')"
      and e: "frame_user (snd c) \<noteq> None \<and> frame_user (snd c) = frame_user (snd d)"
    from alt [OF c] alt [OF d] show "c = d"
    proof (elim disjE exE conjE)
      assume a: "c \<in> set ?R" "d \<in> set ?R"
      from e obtain v where v: "frame_user (snd c) = Some v" by blast
      with e have "frame_user (snd d) = Some v" by simp
      with a v show ?thesis by (rule uq)
    next
      fix fr1 assume a: "c \<in> set ?R" "new = Some fr1" "d = (t, fr1)"
      from a(2) have "frame_user fr1 = Some u" using new by blast
      with a(3) e have "frame_user (snd c) = Some u" by simp
      with rest [OF a(1)] show ?thesis by blast
    next
      fix fr1 assume a: "d \<in> set ?R" "new = Some fr1" "c = (t, fr1)"
      from a(2) have "frame_user fr1 = Some u" using new by blast
      with a(3) e have "frame_user (snd d) = Some u" by simp
      with rest [OF a(1)] show ?thesis by blast
    next
      fix fr1 fr2 assume "new = Some fr1" "c = (t, fr1)" "new = Some fr2" "d = (t, fr2)"
      then show ?thesis by simp
    qed
  qed
  show "\<forall>u. user s' 0 = Some u \<or> user s' 1 = Some u \<longrightarrow> mem s' u \<noteq> None"
  proof (intro allI impI)
    fix v assume "user s' 0 = Some v \<or> user s' 1 = Some v"
    then have "mem s v \<noteq> None"
      using invD_mem [OF i, of 0 v] invD_mem [OF i, of 1 v] by (auto simp: us)
    then show "mem s' v \<noteq> None" using me(1) [of v] me(2) by (cases "v = u") auto
  qed
  show "\<forall>u. user s' 0 = Some u \<longrightarrow> user s' 1 \<noteq> Some u"
    using invD_slots [OF i, where i=0 and j=1] by (auto simp: us)
qed

lemma ioctl_step_heading:
  assumes i: "turn_inv s" and fr0: "map_of (calls s) t = Some fr0" and u: "frame_user fr0 = Some u"
    and cs: "calls s' = (case new of None \<Rightarrow> del t (calls s) | Some fr1 \<Rightarrow> put t fr1 (calls s))"
    and new: "\<And>fr1. new = Some fr1 \<Longrightarrow> frame_user fr1 = Some u"
    and us: "user s' = user s"
    and me: "\<And>v. v \<noteq> u \<Longrightarrow> mem s' v = mem s v"
    and p: "p < 2" "user s p = Some u"
  shows "k < 2 \<Longrightarrow>
      heading k s' + of_bool (fence s k = Signaled)
        + of_bool (k = 1 - p \<and> locked s u \<and> \<not> clears u fr0)
      = heading k s + of_bool (fence s' k = Signaled)
        + of_bool (k = 1 - p \<and> locked s' u
            \<and> \<not> (case new of None \<Rightarrow> False | Some fr1 \<Rightarrow> clears u fr1))"
    and "in_turn s p = (locked s u \<and> \<not> clears u fr0)"
proof -
  let ?R = "del t (calls s)"
  let ?q = "1 - p"
  have q: "?q < 2" "?q \<noteq> p" using p(1) by (auto simp: two)
  have nab: "length (filter (\<lambda>c. abandons (snd c) = Some k) (calls s))
      = length (filter (\<lambda>c. abandons (snd c) = Some k) ?R)"
    using inv_at(2) [OF i fr0, of "\<lambda>c. abandons (snd c) = Some k"] u abandons_user [of fr0 k]
    by auto
  have nab': "length (filter (\<lambda>c. abandons (snd c) = Some k) (calls s'))
      = length (filter (\<lambda>c. abandons (snd c) = Some k) ?R)"
  proof (cases new)
    case None then show ?thesis by (simp add: cs)
  next
    case (Some fr1)
    with new [of fr1] abandons_user [of fr1 k] show ?thesis by (auto simp: cs count_put)
  qed
  have clr: "clearing s v = (v = u \<and> clears u fr0 \<or> v \<noteq> u \<and> (\<exists>c \<in> set ?R. clears v (snd c)))" for v
    using clearing_at [OF i fr0, of v] rest_not_clearing [OF i fr0 u] u clears_user [of v fr0]
    by auto
  have clr': "clearing s' v = (v = u \<and> (case new of None \<Rightarrow> False | Some fr1 \<Rightarrow> clears u fr1)
       \<or> v \<noteq> u \<and> (\<exists>c \<in> set ?R. clears v (snd c)))" for v
  proof (cases new)
    case None
    then show ?thesis using rest_not_clearing [OF i fr0 u] by (auto simp: clearing_def cs)
  next
    case (Some fr1)
    then show ?thesis
      using rest_not_clearing [OF i fr0 u] new [of fr1] clears_user [of v fr1]
      by (auto simp: clearing_def cs set_put_del)
  qed
  show itp: "in_turn s p = (locked s u \<and> \<not> clears u fr0)"
    by (simp add: in_turn_def p clr)
  have itp': "in_turn s' p
      = (locked s' u \<and> \<not> (case new of None \<Rightarrow> False | Some fr1 \<Rightarrow> clears u fr1))"
    by (simp add: in_turn_def p us clr')
  have itq: "in_turn s' ?q = in_turn s ?q"
  proof (cases "user s ?q")
    case None then show ?thesis by (simp add: in_turn_def us)
  next
    case (Some v)
    with invD_slots [OF i, where i="?q" and j=p and u=v] p q have "v \<noteq> u" by auto
    with Some show ?thesis by (simp add: in_turn_def us clr clr' locked_def me)
  qed
  assume k: "k < 2"
  show "heading k s' + of_bool (fence s k = Signaled)
        + of_bool (k = 1 - p \<and> locked s u \<and> \<not> clears u fr0)
      = heading k s + of_bool (fence s' k = Signaled)
        + of_bool (k = 1 - p \<and> locked s' u
            \<and> \<not> (case new of None \<Rightarrow> False | Some fr1 \<Rightarrow> clears u fr1))"
  proof (cases "k = 1 - p")
    case True
    with p(1) have "1 - k = p" by (auto simp: two)
    then show ?thesis unfolding heading_def nab nab' using True itp itp' by simp
  next
    case False
    with p(1) k have "1 - k = 1 - p" by (auto simp: two)
    then show ?thesis unfolding heading_def nab nab' using False itq by simp
  qed
qed

lemma in_turn_frame:
  assumes i: "turn_inv s" and fr0: "map_of (calls s) t = Some fr0" and u: "frame_user fr0 = Some u"
    and p: "p < 2" "user s p = Some u"
  shows "in_turn s p = (locked s u \<and> \<not> clears u fr0)"
  by (rule ioctl_step_heading(2) [OF i fr0 u,
        where s'="s\<lparr>calls := del t (calls s)\<rparr>" and new=None, OF _ _ _ _ p])
     simp_all

lemma inv_ioctl_step:
  assumes "turn_inv s" "map_of (calls s) t = Some fr0" "frame_user fr0 = Some u"
    "calls s' = (case new of None \<Rightarrow> del t (calls s) | Some fr1 \<Rightarrow> put t fr1 (calls s))"
    "\<And>fr1. new = Some fr1 \<Longrightarrow> frame_user fr1 = Some u \<and> frame_ok s' fr1"
    "user s' = user s"
    "\<And>v. v \<noteq> u \<Longrightarrow> mem s' v = mem s v" "mem s' u \<noteq> None"
    "\<And>i. fence s i = Signaled \<Longrightarrow> user s i \<noteq> Some u \<Longrightarrow> fence s' i = Signaled"
    "heading 0 s' + heading 1 s' = 1"
  shows "turn_inv s'"
proof -
  note fr = ioctl_step_frames [OF assms(1-9)]
  from fr(1) fr(2) fr(3) fr(4) fr(5) assms(10) show ?thesis by (rule turn_invI)
qed

lemma heading_sum_same:
  "turn_inv s \<Longrightarrow> (\<And>k. k < 2 \<Longrightarrow> heading k s' = heading k s) \<Longrightarrow>
   heading 0 s' + heading 1 s' = 1"
  using invD_heading [of s] by simp

section \<open>The events of an ioctl\<close>

lemma step_woken:
  assumes i: "turn_inv s" and fr0: "map_of (calls s) t = Some (LockWait u p w)"
    and st: "dmapp_cdev_ioctl_woken t u p w s = Some (r, s')"
  shows "turn_inv s'" and "k < 2 \<Longrightarrow> heading k s' = heading k s"
proof -
  from st have s': "s' = s\<lparr>calls := put t (LockWoken u p w) (calls s)\<rparr>" and g: "fence s w = Signaled"
    by (auto simp: dmapp_cdev_ioctl_woken_def dma_fence_is_signaled_def split: if_splits)
  from inv_at(3) [OF i fr0] have ok: "p < 2" "w = p" "user s p = Some u" "\<not> locked s u" by auto
  have hk: "heading k s' = heading k s" if "k < 2" for k
    using ioctl_step_heading(1) [OF i fr0 _ _ _ _ _ ok(1,3) that,
        where s'=s' and new="Some (LockWoken u p w)"] ok
    by (simp add: s')
  then show "k < 2 \<Longrightarrow> heading k s' = heading k s" .
  show "turn_inv s'"
    by (rule inv_ioctl_step [OF i fr0, where new="Some (LockWoken u p w)"])
       (use ok g heading_sum_same [OF i hk] invD_mem [OF i ok(3,1)] in \<open>simp_all add: s'\<close>)
qed

lemma step_interrupted:
  assumes i: "turn_inv s" and fr0: "map_of (calls s) t = Some (LockWait u p w)"
    and st: "dmapp_cdev_ioctl_interrupted t s = (r, s')"
  shows "turn_inv s'" and "k < 2 \<Longrightarrow> heading k s' = heading k s"
proof -
  from st have s': "s' = s\<lparr>calls := del t (calls s)\<rparr>"
    by (auto simp: dmapp_cdev_ioctl_interrupted_def)
  from inv_at(3) [OF i fr0] have ok: "p < 2" "w = p" "user s p = Some u" "\<not> locked s u" by auto
  have hk: "heading k s' = heading k s" if "k < 2" for k
    using ioctl_step_heading(1) [OF i fr0 _ _ _ _ _ ok(1,3) that, where s'=s' and new=None] ok
    by (simp add: s')
  then show "k < 2 \<Longrightarrow> heading k s' = heading k s" .
  show "turn_inv s'"
    by (rule inv_ioctl_step [OF i fr0, where new=None])
       (use ok heading_sum_same [OF i hk] invD_mem [OF i ok(3,1)] in \<open>simp_all add: s'\<close>)
qed

text \<open>Taking the turn: the token leaves fence p for the caller, on its way to the other fence.\<close>

lemma step_locked:
  assumes i: "turn_inv s" and fr0: "map_of (calls s) t = Some (LockWoken u p w)"
    and st: "dmapp_cdev_ioctl_locked t u p w s = (r, s')"
  shows "turn_inv s'" and "heading p s = 1" and "heading (1 - p) s' = 1"
    and "heading p s' = 0" and "heading (1 - p) s = 0"
proof -
  from st have s': "s' = s\<lparr>fence := (fence s)(w := Pending),
      mem := (mem s)(u \<mapsto> \<lparr>is_locked = True\<rparr>), calls := del t (calls s)\<rparr>"
    by (auto simp: dmapp_cdev_ioctl_locked_def dma_fence_init_def Let_def)
  from inv_at(3) [OF i fr0] have ok: "p < 2" "w = p" "user s p = Some u" "\<not> locked s u"
    "fence s p = Signaled" by auto
  have q: "1 - p < 2" "1 - p \<noteq> p" "1 - (1 - p) = p" using ok(1) by (auto simp: two)
  have lk: "locked s' u" by (simp add: s' locked_def)
  have hp: "heading p s' + 1 = heading p s"
    using ioctl_step_heading(1) [OF i fr0 _ _ _ _ _ ok(1,3) ok(1), where s'=s' and new=None] ok q
    by (simp add: s')
  have hq: "heading (1 - p) s' = heading (1 - p) s + 1"
    using ioctl_step_heading(1) [OF i fr0 _ _ _ _ _ ok(1,3) q(1), where s'=s' and new=None]
      ok q lk
    by (simp add: s')
  have sum: "heading p s + heading (1 - p) s = 1"
    using invD_heading [OF i] ok(1) by (auto simp: two)
  from hp hq sum show "heading p s = 1" "heading (1 - p) s' = 1" "heading p s' = 0"
    "heading (1 - p) s = 0" by simp_all
  then have "heading 0 s' + heading 1 s' = 1" using ok(1) by (auto simp: two)
  then show "turn_inv s'"
    by (intro inv_ioctl_step [OF i fr0, where new=None]) (use ok in \<open>auto simp: s'\<close>)
qed

text \<open>Handing the turn over: the fence was pending, so the signal is never a duplicate.\<close>

lemma step_signal:
  assumes i: "turn_inv s" and fr0: "map_of (calls s) t = Some (UnlockSignal u f)"
    and st: "dmapp_cdev_ioctl_signal t u f s = (r, s')"
  shows "turn_inv s'" and "k < 2 \<Longrightarrow> heading k s' = heading k s"
    and "fence s f \<noteq> Signaled" and "signaled_fences s = 0" and "signaled_fences s' = 1"
proof -
  from inv_at(3) [OF i fr0] have ok: "f < 2" "user s (1 - f) = Some u" "locked s u" by auto
  have p: "1 - f < 2" "1 - (1 - f) = f" using ok(1) by (auto simp: two)
  have "in_turn s (1 - f)" using in_turn_frame [OF i fr0 _ p(1) ok(2)] ok(3) by simp
  with i show z: "signaled_fences s = 0" using p(1) by (rule holder_no_signal)
  then show g: "fence s f \<noteq> Signaled" using ok(1) by (rule no_signal_pending)
  with st have s': "s' = s\<lparr>fence := (fence s)(f := Signaled),
      calls := put t (UnlockClear u 0) (calls s)\<rparr>"
    by (auto simp: dmapp_cdev_ioctl_signal_def dma_fence_signal_def)
  show "signaled_fences s' = 1"
    using z ok(1) by (auto simp: s' signaled_fences_def two split: if_splits)
  have hk: "heading k s' = heading k s" if "k < 2" for k
    using ioctl_step_heading(1) [OF i fr0 _ _ _ _ _ p(1) ok(2) that,
        where s'=s' and new="Some (UnlockClear u 0)"] ok p g that
    by (cases "k = f") (auto simp: s' two)
  then show "k < 2 \<Longrightarrow> heading k s' = heading k s" .
  have oc: "user s 0 = Some u \<or> user s 1 = Some u" using ok(1,2) by (auto simp: two)
  show "turn_inv s'"
    by (rule inv_ioctl_step [OF i fr0, where new="Some (UnlockClear u 0)"])
       (use ok oc heading_sum_same [OF i hk] invD_mem [OF i ok(2) p(1)] in \<open>auto simp: s'\<close>)
qed

lemma step_unlocked:
  assumes i: "turn_inv s" and fr0: "map_of (calls s) t = Some (UnlockClear u ret)"
    and st: "dmapp_cdev_ioctl_unlocked t u ret s = (r, s')"
  shows "turn_inv s'" and "k < 2 \<Longrightarrow> heading k s' = heading k s"
proof -
  from st have s': "s' = s\<lparr>mem := (mem s)(u \<mapsto> \<lparr>is_locked = False\<rparr>), calls := del t (calls s)\<rparr>"
    by (auto simp: dmapp_cdev_ioctl_unlocked_def)
  from inv_at(3) [OF i fr0] obtain p where ok: "p < 2" "user s p = Some u" "locked s u"
    by (auto simp: two)
  have lk: "\<not> locked s' u" by (simp add: s' locked_def)
  have hk: "heading k s' = heading k s" if "k < 2" for k
    using ioctl_step_heading(1) [OF i fr0 _ _ _ _ _ ok(1,2) that, where s'=s' and new=None] lk
    by (simp add: s')
  then show "k < 2 \<Longrightarrow> heading k s' = heading k s" .
  show "turn_inv s'"
    by (rule inv_ioctl_step [OF i fr0, where new=None])
       (use ok heading_sum_same [OF i hk] in \<open>auto simp: s'\<close>)
qed

section \<open>A step of a release in flight\<close>

lemma release_step:
  assumes i: "turn_inv s" and fr0: "map_of (calls s) t = Some fr0" and u: "frame_user fr0 = None"
    and cs: "calls s' = (case new of None \<Rightarrow> del t (calls s) | Some fr1 \<Rightarrow> put t fr1 (calls s))"
    and new: "\<And>fr1. new = Some fr1 \<Longrightarrow> frame_user fr1 = None \<and> frame_ok s' fr1"
    and us: "user s' = user s"
    and me: "mem s' = mem s"
    and fe: "\<And>i. fence s i = Signaled \<Longrightarrow> fence s' i = Signaled"
    and tk: "\<And>k. k < 2 \<Longrightarrow> of_bool (fence s' k = Signaled)
         + of_bool (case new of None \<Rightarrow> False | Some fr1 \<Rightarrow> abandons fr1 = Some k)
       = (of_bool (fence s k = Signaled) + of_bool (abandons fr0 = Some k) :: nat)"
  shows "turn_inv s'" and "k < 2 \<Longrightarrow> heading k s' = heading k s"
proof -
  let ?R = "del t (calls s)"
  have lk: "locked s' v = locked s v" for v by (simp add: locked_def me)
  have rest: "frame_ok s' (snd c)" if c: "c \<in> set ?R" for c
  proof -
    from c have okc: "frame_ok s (snd c)" using invD_frame [OF i] by (simp add: in_del)
    then show ?thesis
    proof (rule frame_ok_pres)
      fix v p w assume "snd c = LockWoken v p w"
      with okc have "fence s w = Signaled" by auto
      then show "fence s' w = Signaled" by (rule fe)
    qed (simp_all add: lk us)
  qed
  have alt: "x \<in> set ?R \<or> (\<exists>fr1. new = Some fr1 \<and> x = (t, fr1))"
    if "x \<in> set (calls s')" for x
    using that by (cases new) (auto simp: cs set_put_del)
  have nab: "length (filter (\<lambda>c. abandons (snd c) = Some k) (calls s))
      = of_bool (abandons fr0 = Some k)
        + length (filter (\<lambda>c. abandons (snd c) = Some k) ?R)" for k
    using inv_at(2) [OF i fr0, of "\<lambda>c. abandons (snd c) = Some k"] by simp
  have nab': "length (filter (\<lambda>c. abandons (snd c) = Some k) (calls s'))
      = of_bool (case new of None \<Rightarrow> False | Some fr1 \<Rightarrow> abandons fr1 = Some k)
        + length (filter (\<lambda>c. abandons (snd c) = Some k) ?R)" for k
    by (cases new) (simp_all add: cs count_put)
  have clr: "clearing s' v = clearing s v" for v
  proof -
    have "clearing s v = (\<exists>c \<in> set ?R. clears v (snd c))"
      using clearing_at [OF i fr0, of v] u clears_user [of v fr0] by auto
    moreover have "clearing s' v = (\<exists>c \<in> set ?R. clears v (snd c))"
    proof (cases new)
      case None then show ?thesis by (simp add: clearing_def cs)
    next
      case (Some fr1)
      with new [of fr1] clears_user [of v fr1] show ?thesis
        by (auto simp: clearing_def cs set_put_del)
    qed
    ultimately show ?thesis by simp
  qed
  have it: "in_turn s' j = in_turn s j" for j
    by (simp add: in_turn_def us lk clr split: option.split)
  have hk: "heading k s' = heading k s" if "k < 2" for k
    unfolding heading_def nab nab' it using tk [OF that] by simp
  then show "k < 2 \<Longrightarrow> heading k s' = heading k s" .
  show "turn_inv s'"
  proof (rule turn_invI)
    show "distinct (map fst (calls s'))"
      using invD_distinct [OF i] by (simp add: cs distinct_put distinct_del split: option.split)
    show "\<forall>c \<in> set (calls s'). frame_ok s' (snd c)"
    proof
      fix c assume "c \<in> set (calls s')"
      from alt [OF this] show "frame_ok s' (snd c)"
      proof (elim disjE exE conjE)
        assume "c \<in> set ?R" then show ?thesis by (rule rest)
      next
        fix fr1 assume "new = Some fr1" "c = (t, fr1)"
        then show ?thesis using new [of fr1] by simp
      qed
    qed
    show "\<forall>c \<in> set (calls s'). \<forall>d \<in> set (calls s').
           frame_user (snd c) \<noteq> None \<and> frame_user (snd c) = frame_user (snd d) \<longrightarrow> c = d"
    proof (intro ballI impI)
      fix c d assume c: "c \<in> set (calls s')" and d: "d \<in> set (calls s')"
        and e: "frame_user (snd c) \<noteq> None \<and> frame_user (snd c) = frame_user (snd d)"
      from e obtain v where v: "frame_user (snd c) = Some v" by blast
      with e have w: "frame_user (snd d) = Some v" by simp
      from alt [OF c] v new have "c \<in> set (calls s)" by (auto simp: in_del)
      moreover from alt [OF d] w new have "d \<in> set (calls s)" by (auto simp: in_del)
      ultimately show "c = d" using v w by (rule invD_unique [OF i])
    qed
    show "\<forall>u. user s' 0 = Some u \<or> user s' 1 = Some u \<longrightarrow> mem s' u \<noteq> None"
      using invD_mem [OF i, where i=0] invD_mem [OF i, where i=1] by (auto simp: us me)
    show "\<forall>u. user s' 0 = Some u \<longrightarrow> user s' 1 \<noteq> Some u"
      using invD_slots [OF i, where i=0 and j=1] by (auto simp: us)
    show "heading 0 s' + heading 1 s' = 1" using i hk by (rule heading_sum_same)
  qed
qed

lemma step_release_check:
  assumes i: "turn_inv s" and fr0: "map_of (calls s) t = Some (ReleaseCheck sf)"
    and st: "dmapp_cdev_release_check t sf s = (r, s')"
  shows "turn_inv s'" and "k < 2 \<Longrightarrow> heading k s' = heading k s"
proof -
  have "turn_inv s' \<and> (k < 2 \<longrightarrow> heading k s' = heading k s)"
  proof (cases sf)
    case None
    with st have s': "s' = s\<lparr>calls := del t (calls s)\<rparr>"
      by (auto simp: dmapp_cdev_release_check_def)
    note rs = release_step [OF i fr0, where new=None and s'=s']
    have "turn_inv s'" by (rule rs(1)) (simp_all add: s' None)
    moreover have "heading k s' = heading k s" if "k < 2"
      by (rule rs(2) [OF _ _ _ _ _ _ _ that]) (simp_all add: s' None)
    ultimately show ?thesis by simp
  next
    case (Some f)
    from inv_at(3) [OF i fr0] Some have f: "f < 2" by simp
    have "signaled_fences s = 0"
      by (rule abandon_no_signal [OF i fr0]) (simp add: Some abandoning_def)
    then have "fence s f \<noteq> Signaled" using f by (rule no_signal_pending)
    with st Some have s': "s' = s\<lparr>calls := put t (ReleaseSignal f) (calls s)\<rparr>"
      by (auto simp: dmapp_cdev_release_check_def dma_fence_is_signaled_def)
    note rs = release_step [OF i fr0, where new="Some (ReleaseSignal f)" and s'=s']
    have "turn_inv s'" by (rule rs(1)) (simp_all add: s' Some f)
    moreover have "heading k s' = heading k s" if "k < 2"
      by (rule rs(2) [OF _ _ _ _ _ _ _ that]) (simp_all add: s' Some f)
    ultimately show ?thesis by simp
  qed
  then show "turn_inv s'" and "k < 2 \<Longrightarrow> heading k s' = heading k s" by simp_all
qed

lemma step_release_signal:
  assumes i: "turn_inv s" and fr0: "map_of (calls s) t = Some (ReleaseSignal f)"
    and st: "dmapp_cdev_release_signal t f s = (r, s')"
  shows "turn_inv s'" and "k < 2 \<Longrightarrow> heading k s' = heading k s"
    and "fence s f \<noteq> Signaled" and "signaled_fences s = 0" and "signaled_fences s' = 1"
proof -
  from inv_at(3) [OF i fr0] have f: "f < 2" by simp
  show z: "signaled_fences s = 0"
    by (rule abandon_no_signal [OF i fr0]) (simp add: abandoning_def)
  then show g: "fence s f \<noteq> Signaled" using f by (rule no_signal_pending)
  with st have s': "s' = s\<lparr>fence := (fence s)(f := Signaled), calls := del t (calls s)\<rparr>"
    by (auto simp: dmapp_cdev_release_signal_def dma_fence_signal_def)
  show "signaled_fences s' = 1"
    using z f by (auto simp: s' signaled_fences_def two split: if_splits)
  note rs = release_step [OF i fr0, where new=None and s'=s']
  show "turn_inv s'" by (rule rs(1)) (use g in \<open>simp_all add: s'\<close>)
  show "heading k s' = heading k s" if "k < 2"
    by (rule rs(2) [OF _ _ _ _ _ _ _ that]) (use g in \<open>simp_all add: s'\<close>)
qed

section \<open>Calls entering: ioctl, open, release\<close>

lemma step_push:
  assumes i: "turn_inv s" and t: "map_of (calls s) t = None"
    and ok: "frame_ok s fr1" and u: "frame_user fr1 = Some u" and nb: "\<not> busy s u"
    and nc: "\<And>v. \<not> clears v fr1"
  shows "turn_inv (s\<lparr>calls := (t, fr1) # calls s\<rparr>)"
    and "heading k (s\<lparr>calls := (t, fr1) # calls s\<rparr>) = heading k s"
proof -
  let ?s' = "s\<lparr>calls := (t, fr1) # calls s\<rparr>"
  have na: "abandons fr1 \<noteq> Some j" for j using u abandons_user [of fr1 j] by auto
  have "clearing ?s' v = clearing s v" for v by (simp add: clearing_def nc)
  then have it: "in_turn ?s' j = in_turn s j" for j by (intro in_turn_cong) simp_all
  show hk: "heading k ?s' = heading k s" for k unfolding heading_def it by (simp add: na)
  show "turn_inv ?s'"
  proof (rule turn_invI)
    from t have "t \<notin> fst ` set (calls s)" by (simp add: map_of_eq_None_iff)
    then show "distinct (map fst (calls ?s'))" using invD_distinct [OF i] by simp
    show "\<forall>c \<in> set (calls ?s'). frame_ok ?s' (snd c)"
      using ok invD_frame [OF i] by simp
    show "\<forall>c \<in> set (calls ?s'). \<forall>d \<in> set (calls ?s').
           frame_user (snd c) \<noteq> None \<and> frame_user (snd c) = frame_user (snd d) \<longrightarrow> c = d"
    proof (intro ballI impI)
      fix c d assume c: "c \<in> set (calls ?s')" and d: "d \<in> set (calls ?s')"
        and e: "frame_user (snd c) \<noteq> None \<and> frame_user (snd c) = frame_user (snd d)"
      from e obtain v where v: "frame_user (snd c) = Some v" by blast
      with e have w: "frame_user (snd d) = Some v" by simp
      show "c = d"
      proof (cases "c = (t, fr1) \<or> d = (t, fr1)")
        case True
        with v w u have vu: "v = u" by auto
        from nb have "\<forall>x \<in> set (calls s). frame_user (snd x) \<noteq> Some u" by (simp add: busy_iff)
        with c d v w vu show ?thesis by auto
      next
        case False
        with c d have "c \<in> set (calls s)" "d \<in> set (calls s)" by auto
        then show ?thesis using v w by (rule invD_unique [OF i])
      qed
    qed
    show "\<forall>u. user ?s' 0 = Some u \<or> user ?s' 1 = Some u \<longrightarrow> mem ?s' u \<noteq> None"
      using invD_mem [OF i, where i=0] invD_mem [OF i, where i=1] by auto
    show "\<forall>u. user ?s' 0 = Some u \<longrightarrow> user ?s' 1 \<noteq> Some u"
      using invD_slots [OF i, where i=0 and j=1] by auto
    show "heading 0 ?s' + heading 1 ?s' = 1" using invD_heading [OF i] by (simp add: hk)
  qed
qed

lemma step_validate:
  assumes i: "turn_inv s" and t: "map_of (calls s) t = None" and nb: "\<not> busy s u"
    and st: "dmapp_cdev_ioctl_validate t u cmd fd s = (r, s')"
  shows "turn_inv s'" and "heading k s' = heading k s"
proof -
  from t have dl: "del t (calls s) = calls s" by (rule del_None)
  from st have "s' = s \<or> (\<exists>fr1. s' = s\<lparr>calls := (t, fr1) # calls s\<rparr> \<and> frame_ok s fr1
      \<and> frame_user fr1 = Some u \<and> (\<forall>v. \<not> clears v fr1))"
    unfolding dmapp_cdev_ioctl_validate_def put_def dl [unfolded del_def]
    by (auto split: if_splits)
  then have "turn_inv s' \<and> heading k s' = heading k s"
    using step_push(1) [OF i t _ _ nb] step_push(2) [OF i t _ _ nb, where k=k] i by auto
  then show "turn_inv s'" and "heading k s' = heading k s" by simp_all
qed

lemma step_open:
  assumes i: "turn_inv s" and f: "mem s u = None" and st: "dmapp_cdev_open (Some u) s = (r, s')"
  shows "turn_inv s'" and "k < 2 \<Longrightarrow> heading k s' = heading k s"
proof -
  have "s' = s \<or> (\<exists>p<2. user s p = None \<and>
      s' = s\<lparr>user := (user s)(p := Some u), mem := (mem s)(u \<mapsto> \<lparr>is_locked = False\<rparr>)\<rparr>)"
  proof (cases "user s 0 = None")
    case True
    with st have "s' = s\<lparr>user := (user s)(0 := Some u), mem := (mem s)(u \<mapsto> \<lparr>is_locked = False\<rparr>)\<rparr>"
      by (simp add: dmapp_cdev_open_def)
    with True show ?thesis by (intro disjI2 exI [of _ 0]) simp
  next
    case False
    show ?thesis
    proof (cases "user s 1 = None")
      case True
      with False st
      have "s' = s\<lparr>user := (user s)(1 := Some u), mem := (mem s)(u \<mapsto> \<lparr>is_locked = False\<rparr>)\<rparr>"
        by (auto simp: dmapp_cdev_open_def)
      with True show ?thesis by (intro disjI2 exI [of _ 1]) simp
    next
      case 2: False
      with False st show ?thesis by (auto simp: dmapp_cdev_open_def)
    qed
  qed
  then have "turn_inv s' \<and> (\<forall>k<2. heading k s' = heading k s)"
  proof (elim disjE exE conjE)
    assume "s' = s" with i show ?thesis by simp
  next
    fix p assume p: "p < 2" "user s p = None"
      and s': "s' = s\<lparr>user := (user s)(p := Some u), mem := (mem s)(u \<mapsto> \<lparr>is_locked = False\<rparr>)\<rparr>"
    have occ: "v \<noteq> u" if "user s j = Some v" "j < 2" for v j
      using invD_mem [OF i that] f by auto
    have lk: "locked s' v = locked s v" if "v \<noteq> u" for v using that by (simp add: s' locked_def)
    have cl: "clearing s' v = clearing s v" for v by (simp add: s' clearing_def)
    have it: "in_turn s' j = in_turn s j" if j: "j < 2" for j
    proof (cases "j = p")
      case True
      then show ?thesis using p by (simp add: in_turn_def s' locked_def)
    next
      case False
      show ?thesis
      proof (rule in_turn_cong)
        show "user s' j = user s j" using False by (simp add: s')
      next
        fix v assume "user s j = Some v"
        then have "v \<noteq> u" using occ j by blast
        then show "locked s' v = locked s v \<and> clearing s' v = clearing s v" by (simp add: lk cl)
      qed
    qed
    have hk: "heading k s' = heading k s" if "k < 2" for k
    proof -
      from that have "1 - k < 2" by simp
      then have "in_turn s' (1 - k) = in_turn s (1 - k)" by (rule it)
      then show ?thesis unfolding heading_def by (simp add: s')
    qed
    have "turn_inv s'"
    proof (rule turn_invI)
      show "distinct (map fst (calls s'))" using invD_distinct [OF i] by (simp add: s')
      show "\<forall>c \<in> set (calls s'). frame_ok s' (snd c)"
      proof
        fix c assume "c \<in> set (calls s')"
        then have c: "c \<in> set (calls s)" by (simp add: s')
        have okc: "frame_ok s (snd c)" by (rule invD_frame [OF i c])
        then show "frame_ok s' (snd c)"
        proof (rule frame_ok_pres)
          fix v assume "frame_user (snd c) = Some v"
          with okc frame_slot obtain j where "j < 2" "user s j = Some v" by blast
          then have "v \<noteq> u" using occ by blast
          then show "locked s' v = locked s v" by (rule lk)
        next
          fix v j assume "user s j = Some v"
          with p(2) show "user s' j = Some v" by (auto simp: s')
        next
          fix v j w assume "snd c = LockWoken v j w"
          with okc show "fence s' w = Signaled" by (auto simp: s')
        qed
      qed
      show "\<forall>c \<in> set (calls s'). \<forall>d \<in> set (calls s').
         frame_user (snd c) \<noteq> None \<and> frame_user (snd c) = frame_user (snd d) \<longrightarrow> c = d"
        using i unfolding turn_inv_def by (elim conjE) (simp add: s')
      show "\<forall>u. user s' 0 = Some u \<or> user s' 1 = Some u \<longrightarrow> mem s' u \<noteq> None"
        using invD_mem [OF i, where i=0] invD_mem [OF i, where i=1] by (auto simp: s')
      show "\<forall>u. user s' 0 = Some u \<longrightarrow> user s' 1 \<noteq> Some u"
        using invD_slots [OF i, where i=0 and j=1] occ [of 0] occ [of 1] p
        by (auto simp: s' two)
      show "heading 0 s' + heading 1 s' = 1" using i hk by (rule heading_sum_same)
    qed
    with hk show ?thesis by simp
  qed
  then show "turn_inv s'" and "k < 2 \<Longrightarrow> heading k s' = heading k s" by simp_all
qed

text \<open>
  A release takes over the turn of the user it frees: the token stays on its way to the
  same fence.
\<close>

lemma step_disconnect:
  assumes i: "turn_inv s" and t: "map_of (calls s) t = None" and nb: "\<not> busy s u"
    and st: "dmapp_cdev_release_disconnect t u s = (r, s')"
  shows "turn_inv s'" and "k < 2 \<Longrightarrow> heading k s' = heading k s"
proof -
  define us sf where "us = (if user s 0 = Some u then (user s)(0 := None)
      else if user s 1 = Some u then (user s)(1 := None) else user s)"
    and "sf = (if (user s 0 = Some u \<or> user s 1 = Some u) \<and> locked s u
      then Some (if user s 0 = Some u then 1 else 0 :: nat) else None)"
  from t have dl: "filter (\<lambda>c. fst c \<noteq> t) (calls s) = calls s"
    using del_None [of "calls s" t] by (simp add: del_def)
  from st have s': "s' = s\<lparr>user := us, mem := (mem s)(u := None),
      calls := (t, ReleaseCheck sf) # calls s\<rparr>"
    by (auto simp: dmapp_cdev_release_disconnect_def put_def dl us_def sf_def split: if_splits)
  have us: "us j = (if user s j = Some u \<and> j < 2 then None else user s j)" if "j < 2" for j
    using that invD_slots [OF i, where i=0 and j=1 and u=u] by (auto simp: us_def two)
  have oth: "v \<noteq> u" if "us j = Some v" "j < 2" for v j
    using that us [of j] by (auto split: if_splits)
  have lk: "locked s' v = locked s v" if "v \<noteq> u" for v using that by (simp add: s' locked_def)
  have cl: "clearing s' v = clearing s v" for v by (simp add: s' clearing_def)
  have ncl: "\<not> clearing s u" using nb by (rule not_busy_not_clearing)
  have it: "of_bool (in_turn s' j) + of_bool (user s j = Some u \<and> locked s u)
      = (of_bool (in_turn s j) :: nat)" if j: "j < 2" for j
  proof (cases "user s j = Some u")
    case True
    then show ?thesis using j us [of j] ncl by (simp add: in_turn_def s')
  next
    case False
    have "in_turn s' j = in_turn s j"
    proof (rule in_turn_cong)
      show "user s' j = user s j" using False us [of j] j by (simp add: s')
    next
      fix v assume "user s j = Some v"
      with False have "v \<noteq> u" by auto
      then show "locked s' v = locked s v \<and> clearing s' v = clearing s v" by (simp add: lk cl)
    qed
    with False show ?thesis by simp
  qed
  have hk: "heading k s' = heading k s" if k: "k < 2" for k
  proof -
    from k have q: "1 - k < 2" by simp
    have ab: "abandons (ReleaseCheck sf) = Some k \<longleftrightarrow> user s (1 - k) = Some u \<and> locked s u"
      using invD_slots [OF i, where i=0 and j=1 and u=u] k by (auto simp: sf_def two)
    have e: "(of_bool (in_turn s (1 - k)) :: nat)
        = of_bool (in_turn s' (1 - k)) + of_bool (user s (1 - k) = Some u \<and> locked s u)"
      using it [OF q] by simp
    have n: "length (filter (\<lambda>c. abandons (snd c) = Some k) (calls s'))
        = of_bool (abandons (ReleaseCheck sf) = Some k)
          + length (filter (\<lambda>c. abandons (snd c) = Some k) (calls s))"
      by (simp add: s')
    have fe: "fence s' = fence s" by (simp add: s')
    show ?thesis unfolding heading_def e n fe ab by simp
  qed
  then show "k < 2 \<Longrightarrow> heading k s' = heading k s" .
  show "turn_inv s'"
  proof (rule turn_invI)
    from t have "t \<notin> fst ` set (calls s)" by (simp add: map_of_eq_None_iff)
    then show "distinct (map fst (calls s'))" using invD_distinct [OF i] by (simp add: s')
    have old: "frame_ok s' (snd c)" if c: "c \<in> set (calls s)" for c
    proof -
      have okc: "frame_ok s (snd c)" by (rule invD_frame [OF i c])
      from nb c have nu: "frame_user (snd c) \<noteq> Some u" by (auto simp: busy_iff)
      from okc show ?thesis
      proof (rule frame_ok_pres)
        fix v assume "frame_user (snd c) = Some v"
        with nu have "v \<noteq> u" by auto
        then show "locked s' v = locked s v" by (rule lk)
      next
        fix v j assume v: "frame_user (snd c) = Some v" and j: "user s j = Some v"
        with nu have "v \<noteq> u" by auto
        with j show "user s' j = Some v" by (auto simp: s' us_def)
      next
        fix v j w assume "snd c = LockWoken v j w"
        with okc show "fence s' w = Signaled" by (auto simp: s')
      qed
    qed
    have "frame_ok s' (ReleaseCheck sf)" by (simp add: sf_def)
    with old show "\<forall>c \<in> set (calls s'). frame_ok s' (snd c)" by (simp add: s')
    show "\<forall>c \<in> set (calls s'). \<forall>d \<in> set (calls s').
         frame_user (snd c) \<noteq> None \<and> frame_user (snd c) = frame_user (snd d) \<longrightarrow> c = d"
    proof (intro ballI impI)
      fix c d assume c: "c \<in> set (calls s')" and d: "d \<in> set (calls s')"
        and e: "frame_user (snd c) \<noteq> None \<and> frame_user (snd c) = frame_user (snd d)"
      from e obtain v where v: "frame_user (snd c) = Some v" by blast
      with e have w: "frame_user (snd d) = Some v" by simp
      from c v have "c \<in> set (calls s)" by (auto simp: s')
      moreover from d w have "d \<in> set (calls s)" by (auto simp: s')
      ultimately show "c = d" using v w by (rule invD_unique [OF i])
    qed
    show "\<forall>u. user s' 0 = Some u \<or> user s' 1 = Some u \<longrightarrow> mem s' u \<noteq> None"
    proof (intro allI impI)
      fix v assume "user s' 0 = Some v \<or> user s' 1 = Some v"
      then have "\<exists>j<2. us j = Some v" by (auto simp: s' two)
      then obtain j where j: "j < 2" "us j = Some v" by blast
      then have "v \<noteq> u" using oth by blast
      moreover from j us [of j] have "user s j = Some v" by (auto split: if_splits)
      then have "mem s v \<noteq> None" using j(1) by (rule invD_mem [OF i])
      ultimately show "mem s' v \<noteq> None" by (simp add: s')
    qed
    show "\<forall>u. user s' 0 = Some u \<longrightarrow> user s' 1 \<noteq> Some u"
      using invD_slots [OF i, where i=0 and j=1] us [of 0] us [of 1]
      by (auto simp: s' split: if_splits)
    show "heading 0 s' + heading 1 s' = 1" using i hk by (rule heading_sum_same)
  qed
qed

section \<open>Steps and runs of single callers\<close>

lemma step_turn:
  assumes i: "turn_inv s" and sc: "single_caller e s" and st: "step e s = Some (r, s')"
  shows "turn_inv s' \<and>
    (case acquired e s of
       None \<Rightarrow> \<forall>k<2. heading k s' = heading k s
     | Some p \<Rightarrow> p < 2 \<and> heading p s = 1 \<and> heading (1 - p) s = 0
         \<and> heading p s' = 0 \<and> heading (1 - p) s' = 1)"
proof (cases e)
  case (EvOpen alloc)
  show ?thesis
  proof (cases alloc)
    case None
    with st EvOpen have "s' = s" by (auto simp: dmapp_cdev_open_def)
    with i EvOpen show ?thesis by (simp add: acquired_def)
  next
    case (Some u)
    with st EvOpen have "mem s u = None" "dmapp_cdev_open (Some u) s = (the r, s')"
      by (auto split: if_splits)
    from step_open [OF i this] EvOpen show ?thesis by (simp add: acquired_def)
  qed
next
  case (EvIoctl t u cmd fd)
  with st have t: "map_of (calls s) t = None"
    and v: "dmapp_cdev_ioctl_validate t u cmd fd s = (r, s')"
    by (auto split: if_splits)
  show ?thesis
  proof (cases "busy s u")
    case False
    from step_validate [OF i t False v] EvIoctl show ?thesis by (simp add: acquired_def)
  next
    case True
    with sc EvIoctl v have "r \<noteq> None" by simp
    with v have "s' = s"
      by (auto simp: dmapp_cdev_ioctl_validate_def split: if_splits option.splits prod.splits)
    with i EvIoctl show ?thesis by (simp add: acquired_def)
  qed
next
  case (EvWake t)
  with st obtain u p w where "map_of (calls s) t = Some (LockWait u p w)"
    "dmapp_cdev_ioctl_woken t u p w s = Some (r, s')"
    by (auto split: option.splits frame.splits)
  from step_woken [OF i this] EvWake show ?thesis by (simp add: acquired_def)
next
  case (EvInterrupt t)
  with st obtain u p w where "map_of (calls s) t = Some (LockWait u p w)"
    "dmapp_cdev_ioctl_interrupted t s = (r, s')"
    by (auto split: option.splits frame.splits)
  from step_interrupted [OF i this] EvInterrupt show ?thesis by (simp add: acquired_def)
next
  case (EvLocked t)
  with st obtain u p w where fr: "map_of (calls s) t = Some (LockWoken u p w)"
    and l: "dmapp_cdev_ioctl_locked t u p w s = (r, s')"
    by (auto split: option.splits frame.splits)
  from inv_at(3) [OF i fr] have "p < 2" by simp
  with step_locked [OF i fr l] EvLocked fr show ?thesis by (simp add: acquired_def)
next
  case (EvSignal t)
  with st obtain u f where "map_of (calls s) t = Some (UnlockSignal u f)"
    "dmapp_cdev_ioctl_signal t u f s = (r, s')"
    by (auto split: option.splits frame.splits)
  from step_signal(1,2) [OF i this] EvSignal show ?thesis by (simp add: acquired_def)
next
  case (EvUnlocked t)
  with st obtain u ret where "map_of (calls s) t = Some (UnlockClear u ret)"
    "dmapp_cdev_ioctl_unlocked t u ret s = (r, s')"
    by (auto split: option.splits frame.splits)
  from step_unlocked [OF i this] EvUnlocked show ?thesis by (simp add: acquired_def)
next
  case (EvClose t u)
  with st have "map_of (calls s) t = None" "\<not> busy s u"
    "dmapp_cdev_release_disconnect t u s = (r, s')"
    by (auto split: if_splits)
  from step_disconnect [OF i this] EvClose show ?thesis by (simp add: acquired_def)
next
  case (EvCloseCheck t)
  with st obtain sf where "map_of (calls s) t = Some (ReleaseCheck sf)"
    "dmapp_cdev_release_check t sf s = (r, s')"
    by (auto split: option.splits frame.splits)
  from step_release_check [OF i this] EvCloseCheck show ?thesis by (simp add: acquired_def)
next
  case (EvCloseSignal t)
  with st obtain f where "map_of (calls s) t = Some (ReleaseSignal f)"
    "dmapp_cdev_release_signal t f s = (r, s')"
    by (auto split: option.splits frame.splits)
  from step_release_signal(1,2) [OF i this] EvCloseSignal show ?thesis by (simp add: acquired_def)
qed

lemma run1_Cons:
  "run1 (e # evs) s = Some s' \<Longrightarrow>
   \<exists>r s1. single_caller e s \<and> step e s = Some (r, s1) \<and> run1 evs s1 = Some s'"
  by (auto split: if_splits option.splits)

lemma inv_run1: "turn_inv s \<Longrightarrow> run1 evs s = Some s' \<Longrightarrow> turn_inv s'"
proof (induction evs arbitrary: s)
  case Nil
  then show ?case by simp
next
  case (Cons e evs)
  from run1_Cons [OF Cons.prems(2)] obtain r s1 where sc: "single_caller e s"
    and st: "step e s = Some (r, s1)" and rest: "run1 evs s1 = Some s'" by blast
  from step_turn [OF Cons.prems(1) sc st] have "turn_inv s1" by simp
  then show ?case using rest by (rule Cons.IH)
qed

lemma alternates_run1:
  "turn_inv s \<Longrightarrow> run1 evs s = Some s' \<Longrightarrow> b < 2 \<Longrightarrow> heading b s = 1 \<Longrightarrow>
   alternates b (acquires evs s)"
proof (induction evs arbitrary: s b)
  case Nil
  then show ?case by simp
next
  case (Cons e evs)
  from run1_Cons [OF Cons.prems(2)] obtain r s1 where sc: "single_caller e s"
    and st: "step e s = Some (r, s1)" and rest: "run1 evs s1 = Some s'" by blast
  note tn = step_turn [OF Cons.prems(1) sc st]
  then have i1: "turn_inv s1" by simp
  show ?case
  proof (cases "acquired e s")
    case None
    with tn Cons.prems(3,4) have "heading b s1 = 1" by simp
    with i1 rest Cons.prems(3) have "alternates b (acquires evs s1)" by (intro Cons.IH)
    with st None show ?thesis by simp
  next
    case (Some p)
    with tn have p: "p < 2" "heading p s = 1" "heading (1 - p) s = 0" "heading (1 - p) s1 = 1"
      by simp_all
    from p(1,3) Cons.prems(3,4) have pb: "p = b" by (auto simp: two)
    from p(1) have "1 - p < 2" by simp
    with i1 rest p(4) have "alternates (1 - p) (acquires evs s1)" by (intro Cons.IH)
    with st Some pb show ?thesis by simp
  qed
qed

lemma probe_attached: "dmapp_platform_driver_probe env = Inr s \<Longrightarrow> s = attached"
  by (auto simp: dmapp_platform_driver_probe_def attached_def zeroed_def dma_fence_init_def
      dma_fence_signal_def Let_def fun_eq_iff split: if_splits option.splits)

lemma probe_env_ok: "dmapp_platform_driver_probe env_ok = Inr attached"
  by (simp add: dmapp_platform_driver_probe_def env_ok_def attached_def zeroed_def
      dma_fence_init_def dma_fence_signal_def EINVAL_def fun_eq_iff)

lemma inv_attached: "turn_inv attached"
  by (simp add: turn_inv_def attached_def heading_def in_turn_def)

lemma heading_attached: "heading 1 attached = 1"
  by (simp add: attached_def heading_def in_turn_def)

section \<open>The fences along a run\<close>

lemma fence_step:
  assumes "step e s = Some (r, s')" and "signalled e s \<noteq> Some k"
  shows "fence s k = Pending \<Longrightarrow> fence s' k = Pending"
    and "acquired e s = None \<Longrightarrow> signalled e s = None \<Longrightarrow> fence s' = fence s"
proof -
  have "(fence s k = Pending \<longrightarrow> fence s' k = Pending)
      \<and> (acquired e s = None \<and> signalled e s = None \<longrightarrow> fence s' = fence s)"
  proof (cases e)
    case (EvOpen alloc)
    with assms show ?thesis
      by (auto simp: dmapp_cdev_open_def split: option.splits if_splits)
  next
    case (EvIoctl t u cmd fd)
    with assms show ?thesis
      by (auto simp: dmapp_cdev_ioctl_validate_def split: option.splits if_splits)
  next
    case (EvWake t)
    with assms show ?thesis
      by (auto simp: dmapp_cdev_ioctl_woken_def split: option.splits frame.splits if_splits)
  next
    case (EvInterrupt t)
    with assms show ?thesis
      by (auto simp: dmapp_cdev_ioctl_interrupted_def split: option.splits frame.splits)
  next
    case (EvLocked t)
    with assms show ?thesis
      by (auto simp: dmapp_cdev_ioctl_locked_def dma_fence_init_def acquired_def
          split: option.splits frame.splits)
  next
    case (EvSignal t)
    with assms show ?thesis
      by (auto simp: dmapp_cdev_ioctl_signal_def dma_fence_signal_def signalled_def
          split: option.splits frame.splits if_splits)
  next
    case (EvUnlocked t)
    with assms show ?thesis
      by (auto simp: dmapp_cdev_ioctl_unlocked_def split: option.splits frame.splits)
  next
    case (EvClose t u)
    with assms show ?thesis
      by (auto simp: dmapp_cdev_release_disconnect_def split: if_splits)
  next
    case (EvCloseCheck t)
    with assms show ?thesis
      by (auto simp: dmapp_cdev_release_check_def split: option.splits frame.splits if_splits)
  next
    case (EvCloseSignal t)
    with assms show ?thesis
      by (auto simp: dmapp_cdev_release_signal_def dma_fence_signal_def signalled_def
          split: option.splits frame.splits if_splits)
  qed
  then show "fence s k = Pending \<Longrightarrow> fence s' k = Pending"
    and "acquired e s = None \<Longrightarrow> signalled e s = None \<Longrightarrow> fence s' = fence s" by simp_all
qed




section \<open>The order of handoffs\<close>

text \<open>
  Along a run of single-caller participants an acquire consumes the one signalled fence,
  a handover finds no fence signalled and signals the fence the token was heading to,
  and no other step touches the fences.
\<close>

lemma signaled_attached: "signaled_fences attached = 1"
  by (simp add: attached_def signaled_fences_def)

lemma signaled_one:
  assumes "turn_inv s" "fence s p = Signaled" "p < 2"
  shows "signaled_fences s = 1"
  using inv_tokens [OF assms(1)] assms(2,3)
  by (auto simp: tokens_def signaled_fences_def two split: if_splits)

lemma heading_signaled:
  assumes "turn_inv s" "fence s f = Signaled" "f < 2"
  shows "heading f s = 1"
proof -
  from assms(2) have "1 \<le> heading f s" by (simp add: heading_def)
  moreover from invD_heading [OF assms(1)] assms(3) have "heading f s \<le> 1"
    by (auto simp: two)
  ultimately show ?thesis by simp
qed

lemma step_handoff:
  assumes i: "turn_inv s" and sc: "single_caller e s" and st: "step e s = Some (r, s')"
  shows "(case acquired e s of
       Some p \<Rightarrow> signaled_fences s = 1 \<and> signaled_fences s' = 0
     | None \<Rightarrow>
        (case signalled e s of
           Some f \<Rightarrow> f < 2 \<and> heading f s = 1 \<and> signaled_fences s = 0 \<and> signaled_fences s' = 1
         | None \<Rightarrow> signaled_fences s' = signaled_fences s))"
proof (cases "acquired e s")
  case (Some p)
  then obtain t u w where e: "e = EvLocked t" and fr: "map_of (calls s) t = Some (LockWoken u p w)"
    by (auto simp: acquired_def split: event.splits option.splits frame.splits)
  from st e fr have l: "dmapp_cdev_ioctl_locked t u p w s = (r, s')" by simp
  from inv_at(3) [OF i fr] have ok: "p < 2" "w = p" "fence s p = Signaled" by auto
  from i ok(3,1) have "signaled_fences s = 1" by (rule signaled_one)
  moreover from l ok have "signaled_fences s' + 1 = signaled_fences s"
    by (auto simp: dmapp_cdev_ioctl_locked_def dma_fence_init_def signaled_fences_def two)
  ultimately show ?thesis using Some by simp
next
  case None
  show ?thesis
  proof (cases "signalled e s")
    case n: None
    then have "signalled e s \<noteq> Some 0" by simp
    from fence_step(2) [OF st this None n] have "fence s' = fence s" .
    then show ?thesis using None n by (simp add: signaled_fences_def)
  next
    case (Some f)
    from step_turn [OF i sc st] None have i': "turn_inv s'" and hk: "\<forall>k<2. heading k s' = heading k s"
      by simp_all
    from Some consider
      (sig) t u where "e = EvSignal t" "map_of (calls s) t = Some (UnlockSignal u f)"
      | (rel) t where "e = EvCloseSignal t" "map_of (calls s) t = Some (ReleaseSignal f)"
      by (auto simp: signalled_def split: event.splits option.splits frame.splits)
    then have "f < 2 \<and> signaled_fences s = 0 \<and> signaled_fences s' = 1 \<and> fence s' f = Signaled"
    proof cases
      case sig
      with st have sg: "dmapp_cdev_ioctl_signal t u f s = (r, s')" by simp
      from inv_at(3) [OF i sig(2)] have f: "f < 2" by simp
      from step_signal(3,4,5) [OF i sig(2) sg] sg f show ?thesis
        by (auto simp: dmapp_cdev_ioctl_signal_def dma_fence_signal_def split: if_splits)
    next
      case rel
      with st have sg: "dmapp_cdev_release_signal t f s = (r, s')" by simp
      from inv_at(3) [OF i rel(2)] have f: "f < 2" by simp
      from step_release_signal(3,4,5) [OF i rel(2) sg] sg f show ?thesis
        by (auto simp: dmapp_cdev_release_signal_def dma_fence_signal_def split: if_splits)
    qed
    moreover from this i' have "heading f s' = 1" by (intro heading_signaled) simp_all
    ultimately show ?thesis using None Some hk by simp
  qed
qed

lemma protocol_run1:
  "turn_inv s \<Longrightarrow> run1 evs s = Some s' \<Longrightarrow> b < 2 \<Longrightarrow> heading b s = 1 \<Longrightarrow>
   protocol (signaled_fences s = 1) b (handoffs evs s)"
proof (induction evs arbitrary: s b)
  case Nil
  then show ?case by simp
next
  case (Cons e evs)
  from run1_Cons [OF Cons.prems(2)] obtain r s1 where sc: "single_caller e s"
    and st: "step e s = Some (r, s1)" and rest: "run1 evs s1 = Some s'" by blast
  note tn = step_turn [OF Cons.prems(1) sc st]
  note ho = step_handoff [OF Cons.prems(1) sc st]
  from tn have i1: "turn_inv s1" by simp
  show ?case
  proof (cases "acquired e s")
    case (Some p)
    with tn have p: "p < 2" "heading p s = 1" "heading (1 - p) s = 0" "heading (1 - p) s1 = 1"
      by simp_all
    from p(1,3) Cons.prems(3,4) have pb: "p = b" by (auto simp: two)
    from ho Some have sf: "signaled_fences s = 1" "signaled_fences s1 = 0" by simp_all
    from p(1) have "1 - p < 2" by simp
    with i1 rest p(4) have "protocol (signaled_fences s1 = 1) (1 - p) (handoffs evs s1)"
      by (intro Cons.IH)
    with st Some pb sf show ?thesis by simp
  next
    case None
    with tn Cons.prems(3,4) have hb: "heading b s1 = 1" by simp
    with i1 rest Cons.prems(3)
    have ih: "protocol (signaled_fences s1 = 1) b (handoffs evs s1)" by (intro Cons.IH)
    show ?thesis
    proof (cases "signalled e s")
      case n: None
      with ho None have "signaled_fences s1 = signaled_fences s" by simp
      with ih st None n show ?thesis by simp
    next
      case (Some f)
      with ho None have f: "f < 2" "heading f s = 1" "signaled_fences s = 0"
        "signaled_fences s1 = 1" by simp_all
      have fb: "f = b"
        using f(1,2) Cons.prems(3,4) invD_heading [OF Cons.prems(1)] by (auto simp: two)
      from ih st None Some f fb show ?thesis by simp
    qed
  qed
qed

section \<open>Concrete runs\<close>

lemmas cmd_defs = DMAPP_IOCTL_BUFFER_LOCK_def DMAPP_IOCTL_BUFFER_UNLOCK_def
  DMAPP_IOCTL_GET_BUFFER_SIZE_def DMAPP_IOCTL_GET_BUFFER_FD_def
  DMAPP_IOCTL_GET_BUFFER_PARITY_def IO_def DMAPP_IOC_MAGIC_def

lemmas run_defs = attached_def dmapp_cdev_open_def dmapp_cdev_ioctl_validate_def
  dmapp_cdev_ioctl_woken_def dmapp_cdev_ioctl_interrupted_def dmapp_cdev_ioctl_locked_def
  dmapp_cdev_ioctl_signal_def dmapp_cdev_ioctl_unlocked_def dmapp_cdev_release_disconnect_def
  dmapp_cdev_release_check_def dmapp_cdev_release_signal_def dma_fence_init_def
  dma_fence_signal_def dma_fence_is_signaled_def put_def del_def busy_def locked_def
  acquired_def signalled_def cmd_defs opened_def first_turn_def

lemmas scen_defs = three_turns_def queried_def both_flags_def abandoned_def dup_unlock_def
  dup_unlock_pre_def two_locks_def two_tokens_def dup_release_pre_def
  dup_release_def overlap_def late_release_pre_def late_release_def woken_def
  unlocking_def abandoning_turn_def run_defs



lemma run1_first_turn: "run1 first_turn attached = Some in_first_turn"
  by (simp add: run_defs in_first_turn_def fun_eq_iff)



section \<open>Strict alternation\<close>

text \<open>
  C1 (as the code has it). For the two participants of a device, each with one lock or
  unlock call in flight on its file at most, the lock calls that take the turn (lines
  287 to 292) alternate in parity, and the first of them after the probe is of parity 1,
  not 0: the probe signals \<open>fence[1]\<close>, the fence the participant of slot 1 waits on.
\<close>

theorem C1_acquires_alternate_from_parity_1:
  assumes "dmapp_platform_driver_probe env = Inr s0" and "run1 evs s0 = Some s"
  shows "alternates 1 (acquires evs s0)"
proof -
  from assms(1) have s0: "s0 = attached" by (rule probe_attached)
  show ?thesis
    using inv_attached assms(2) [unfolded s0] _ heading_attached
    unfolding s0 by (rule alternates_run1) simp
qed

theorem C1_acquires_alternate_witness:
  "run1 three_turns attached \<noteq> None \<and> acquires three_turns attached = [1, 0, 1]
   \<and> alternates 1 (acquires three_turns attached)
   \<and> run1 queried attached \<noteq> None
   \<and> returns queried attached
       = [(EvOpen (Some 1), 0), (EvOpen (Some 2), 0), (EvLocked 12, 0),
          (EvIoctl 13 1 DMAPP_IOCTL_GET_BUFFER_PARITY 0, 0),
          (EvIoctl 14 2 DMAPP_IOCTL_BUFFER_LOCK 0, 0),
          (EvIoctl 14 2 DMAPP_IOCTL_GET_BUFFER_SIZE 0, 10), (EvUnlocked 12, 0),
          (EvLocked 11, 0)]
   \<and> acquires queried attached = [1, 0]
   \<and> alternates 1 (acquires queried attached)"
proof -
  have r: "run1 three_turns attached \<noteq> None" by (simp add: three_turns_def run_defs)
  then obtain s where s: "run1 three_turns attached = Some s" by blast
  have a: "acquires three_turns attached = [1, 0, 1]" by (simp add: three_turns_def run_defs)
  have r': "run1 queried attached \<noteq> None" by (simp add: queried_def run_defs)
  then obtain s' where s': "run1 queried attached = Some s'" by blast
  have a': "acquires queried attached = [1, 0]" by (simp add: queried_def run_defs)
  have v: "returns queried attached
       = [(EvOpen (Some 1), 0), (EvOpen (Some 2), 0), (EvLocked 12, 0),
          (EvIoctl 13 1 DMAPP_IOCTL_GET_BUFFER_PARITY 0, 0),
          (EvIoctl 14 2 DMAPP_IOCTL_BUFFER_LOCK 0, 0),
          (EvIoctl 14 2 DMAPP_IOCTL_GET_BUFFER_SIZE 0, 10), (EvUnlocked 12, 0),
          (EvLocked 11, 0)]"
    by (simp add: queried_def run_defs DMAPP_BUFFER_SIZE_def)
  from C1_acquires_alternate_from_parity_1 [OF probe_env_ok s]
    C1_acquires_alternate_from_parity_1 [OF probe_env_ok s'] r a r' a' v
  show ?thesis by simp
qed

text \<open>
  C1 as stated fails: after the probe and two opens, the lock of the participant of
  parity 0 sleeps and the first call to take the turn is of parity 1. A second lock
  call of user 2 inside that turn returns 0 at once and changes nothing (lines 246 to
  250), so it is not an acquire although it succeeds. It also fails
  when a participant has two lock calls in flight on its file (\<open>two_locks\<close>, which is not
  a run of single callers): both wake on the one signal of \<open>fence[1]\<close>, both take the
  turn and return 0, two acquires of parity 1 in a row.
\<close>

theorem C1_first_acquire_counterexample:
  "dmapp_platform_driver_probe env_ok = Inr attached
   \<and> run1 first_turn attached \<noteq> None
   \<and> acquires first_turn attached = [1]
   \<and> \<not> alternates 0 (acquires first_turn attached)
   \<and> returns first_turn attached = [(EvOpen (Some 1), 0), (EvOpen (Some 2), 0), (EvLocked 12, 0)]
   \<and> map_option (step (EvWake 11)) (run1 first_turn attached) = Some None
   \<and> map_option (step (EvIoctl 12 2 DMAPP_IOCTL_BUFFER_LOCK 0)) (run1 first_turn attached)
       = Some (Some (Some 0, in_first_turn))
   \<and> map_option (acquired (EvIoctl 12 2 DMAPP_IOCTL_BUFFER_LOCK 0)) (run1 first_turn attached)
       = Some None
   \<and> run1 two_locks attached = None
   \<and> run two_locks attached \<noteq> None
   \<and> acquires two_locks attached = [1, 1]
   \<and> \<not> alternates 1 (acquires two_locks attached)
   \<and> returns two_locks attached
       = [(EvOpen (Some 1), 0), (EvOpen (Some 2), 0), (EvLocked 12, 0), (EvLocked 13, 0)]"
  by (simp add: probe_env_ok scen_defs in_first_turn_def fun_eq_iff)

section \<open>Mutual exclusion and the token\<close>

lemma flag_in_turn: "flag s i \<Longrightarrow> \<not> in_turn s i \<Longrightarrow> \<exists>u. user s i = Some u \<and> clearing s u"
  by (auto simp: flag_def in_turn_def split: option.splits)

lemma quiet_in_turn: "quiet s \<Longrightarrow> in_turn s i = flag s i"
proof -
  assume q: "quiet s"
  have "\<not> clearing s u" for u
  proof
    assume "clearing s u"
    then obtain c where c: "c \<in> set (calls s)" "clears u (snd c)" by (auto simp: clearing_def)
    from c(2) have "handing_over (snd c)" by (cases "snd c") auto
    with c(1) q show False by (auto simp: quiet_def)
  qed
  then show ?thesis by (simp add: in_turn_def flag_def split: option.split)
qed

lemma quiet_abandoning: "quiet s \<Longrightarrow> filter (\<lambda>c. abandoning (snd c)) (calls s) = []"
proof -
  assume q: "quiet s"
  have "\<not> abandoning (snd c)" if "c \<in> set (calls s)" for c
  proof
    assume "abandoning (snd c)"
    then have "handing_over (snd c)" by (cases "snd c") auto
    with that q show False by (auto simp: quiet_def)
  qed
  then show ?thesis by (simp add: filter_empty_conv)
qed

text \<open>
  C2 (as the code has it). In every state that single-caller participants reach from the
  probe, the two participants are never inside their turns at once. The two
  \<open>is_locked\<close> flags can both be set, but only while an unlock has already signalled the
  other side and is about to clear its flag. Along the run, acquires and handovers
  (the signal of an unlock or of a release) strictly take turns, starting with an
  acquire of parity 1: between two acquires there is a handover to the fence of the
  second.
\<close>

theorem C2_turns_never_overlap:
  assumes "dmapp_platform_driver_probe env = Inr s0" and "run1 evs s0 = Some s"
  shows "\<not> (in_turn s 0 \<and> in_turn s 1)
    \<and> (flag s 0 \<and> flag s 1 \<longrightarrow> (\<exists>c \<in> set (calls s). \<exists>u r. snd c = UnlockClear u r))
    \<and> protocol True 1 (handoffs evs s0)"
proof -
  from assms(1) have s0: "s0 = attached" by (rule probe_attached)
  from inv_attached assms(2) [unfolded s0] have i: "turn_inv s" by (rule inv_run1)
  from inv_attached assms(2) [unfolded s0] heading_attached
  have "protocol (signaled_fences attached = 1) 1 (handoffs evs attached)"
    by (intro protocol_run1) simp_all
  then have pr: "protocol True 1 (handoffs evs s0)" by (simp add: s0 signaled_attached)
  from inv_tokens [OF i] have ex: "\<not> (in_turn s 0 \<and> in_turn s 1)"
    by (auto simp: tokens_def)
  have "\<exists>c \<in> set (calls s). \<exists>u r. snd c = UnlockClear u r" if "flag s 0" "flag s 1"
  proof -
    from ex that obtain j u where "user s j = Some u" "clearing s u"
      using flag_in_turn [of s 0] flag_in_turn [of s 1] by blast
    then obtain c where c: "c \<in> set (calls s)" "clears u (snd c)" by (auto simp: clearing_def)
    from c(2) obtain r where "snd c = UnlockClear u r" by (cases "snd c") auto
    with c(1) show ?thesis by blast
  qed
  with ex pr show ?thesis by blast
qed

theorem C2_turns_never_overlap_witness:
  "run1 both_flags attached \<noteq> None
   \<and> map_option (\<lambda>s. flag s 0 \<and> flag s 1) (run1 both_flags attached) = Some True
   \<and> map_option (\<lambda>s. in_turn s 0 \<and> in_turn s 1) (run1 both_flags attached) = Some False
   \<and> map_option (\<lambda>s. \<exists>c \<in> set (calls s). \<exists>u r. snd c = UnlockClear u r)
        (run1 both_flags attached) = Some True
   \<and> handoffs both_flags attached = [Acquire 1, Handover 0, Acquire 0]
   \<and> protocol True 1 (handoffs both_flags attached)"
proof -
  have r: "run1 both_flags attached \<noteq> None" by (simp add: scen_defs)
  then obtain s where s: "run1 both_flags attached = Some s" by blast
  have "map_option (\<lambda>s. flag s 0 \<and> flag s 1) (run1 both_flags attached) = Some True"
    by (simp add: scen_defs flag_def)
  with s have f: "flag s 0 \<and> flag s 1" by simp
  have h: "handoffs both_flags attached = [Acquire 1, Handover 0, Acquire 0]"
    by (simp add: scen_defs)
  from C2_turns_never_overlap [OF probe_env_ok s] f r s h show ?thesis by simp
qed

text \<open>
  C2 as stated fails: user 2 (parity 1) unlocks, its signal wakes the lock of user 1
  (parity 0), which sets its flag before the unlock has cleared the flag of user 2. The
  turns themselves overlap when a participant has had two unlock calls in flight on
  its file: in \<open>overlap\<close>, which is not a run of single callers, the late second signal of
  user 2 lets user 1 take a turn while user 2 is inside its own, with no call in flight,
  and two acquires follow each other with no handover between them.
\<close>

theorem C2_both_flags_counterexample:
  "dmapp_platform_driver_probe env_ok = Inr attached
   \<and> run1 both_flags attached \<noteq> None
   \<and> map_option (\<lambda>s. (user s 0, user s 1, map_option is_locked (mem s 1),
          map_option is_locked (mem s 2), calls s)) (run1 both_flags attached)
       = Some (Some 1, Some 2, Some True, Some True, [(12, UnlockClear 2 0)])
   \<and> map_option (\<lambda>s. flag s 0 \<and> flag s 1) (run1 both_flags attached) = Some True
   \<and> run1 overlap attached = None
   \<and> map_option (\<lambda>s. (user s 0, user s 1, map_option is_locked (mem s 1),
          map_option is_locked (mem s 2), calls s)) (run overlap attached)
       = Some (Some 1, Some 2, Some True, Some True, [])
   \<and> map_option (\<lambda>s. in_turn s 0 \<and> in_turn s 1) (run overlap attached) = Some True
   \<and> handoffs overlap attached
       = [Acquire 1, Handover 0, Acquire 0, Handover 0, Handover 1, Acquire 1, Acquire 0]
   \<and> \<not> protocol True 1 (handoffs overlap attached)"
  by (simp add: probe_env_ok scen_defs flag_def in_turn_def clearing_def)

section \<open>Single calls\<close>

lemma map_of_put [simp]: "map_of (put t fr cs) t = Some fr"
  by (simp add: put_def)

lemma map_of_put_other [simp]: "t' \<noteq> t \<Longrightarrow> map_of (put t fr cs) t' = map_of cs t'"
  by (induction cs) (auto simp: put_def)

lemma del_put [simp]: "del t (put t fr cs) = del t cs"
  by (simp add: put_def del_def)

lemma put_put [simp]: "put t fr (put t fr0 cs) = put t fr cs"
  by (simp add: put_def)

lemma state_calls_same [simp]: "s\<lparr>calls := calls s\<rparr> = s"
  by simp

lemma validate_lock:
  assumes "registered s u p" "\<not> locked s u"
  shows "dmapp_cdev_ioctl_validate t u DMAPP_IOCTL_BUFFER_LOCK fd s
    = (None, s\<lparr>calls := put t (LockWait u p p) (calls s)\<rparr>)"
  using assms by (auto simp: registered_def dmapp_cdev_ioctl_validate_def two cmd_defs)


lemma step_lock_enter:
  assumes "registered s u p" "\<not> locked s u" "map_of (calls s) t = None"
  shows "step (EvIoctl t u DMAPP_IOCTL_BUFFER_LOCK fd) s
    = Some (None, s\<lparr>calls := put t (LockWait u p p) (calls s)\<rparr>)"
  using assms validate_lock [OF assms(1,2)] by (simp add: registered_def)


lemma step_wake_frame:
  "map_of (calls s) t = Some (LockWait u p w) \<Longrightarrow>
   step (EvWake t) s = (if fence s w = Signaled
     then Some (None, s\<lparr>calls := put t (LockWoken u p w) (calls s)\<rparr>) else None)"
  by (simp add: dmapp_cdev_ioctl_woken_def dma_fence_is_signaled_def)

lemma step_interrupt_frame:
  "map_of (calls s) t = Some (LockWait u p w) \<Longrightarrow>
   step (EvInterrupt t) s = Some (Some (- ERESTARTSYS), s\<lparr>calls := del t (calls s)\<rparr>)"
  by (simp add: dmapp_cdev_ioctl_interrupted_def)

lemma step_locked_frame:
  "map_of (calls s) t = Some (LockWoken u p w) \<Longrightarrow>
   step (EvLocked t) s = Some (Some 0, s\<lparr>fence := (fence s)(w := Pending),
     mem := (mem s)(u \<mapsto> \<lparr>is_locked = True\<rparr>), calls := del t (calls s)\<rparr>)"
  by (simp add: dmapp_cdev_ioctl_locked_def dma_fence_init_def)

lemma step_signal_frame:
  "map_of (calls s) t = Some (UnlockSignal u f) \<Longrightarrow>
   step (EvSignal t) s = (if fence s f = Signaled
     then Some (None, s\<lparr>calls := put t (UnlockClear u (- EINVAL)) (calls s)\<rparr>)
     else Some (None, s\<lparr>fence := (fence s)(f := Signaled),
       calls := put t (UnlockClear u 0) (calls s)\<rparr>))"
  by (simp add: dmapp_cdev_ioctl_signal_def dma_fence_signal_def)

lemma step_unlocked_frame:
  "map_of (calls s) t = Some (UnlockClear u r) \<Longrightarrow>
   step (EvUnlocked t) s = Some (Some r, s\<lparr>mem := (mem s)(u \<mapsto> \<lparr>is_locked = False\<rparr>),
     calls := del t (calls s)\<rparr>)"
  by (simp add: dmapp_cdev_ioctl_unlocked_def)

lemma fence_cases: "f \<noteq> Signaled \<longleftrightarrow> f = Pending"
  by (cases f) auto









text \<open>
  C7. When the sleep of a lock call is interrupted, the call returns \<open>-ERESTARTSYS\<close>, a
  value no other path of the ioctl returns, and the state is what it was before the
  call: the flag is not set, the fence is not initialised again, and the same call can
  be issued again.
\<close>

theorem C7_interrupted_lock_changes_nothing:
  assumes "registered s u p" and "map_of (calls s) t = None" and "\<not> locked s u"
  shows "(\<exists>s1. step (EvIoctl t u DMAPP_IOCTL_BUFFER_LOCK fd) s = Some (None, s1)
          \<and> step (EvInterrupt t) s1 = Some (Some (- ERESTARTSYS), s))
     \<and> (\<forall>s'. map_of (calls s') t = Some (LockWait u p p) \<longrightarrow>
           (\<exists>s''. step (EvInterrupt t) s' = Some (Some (- ERESTARTSYS), s'')
              \<and> mem s'' = mem s' \<and> fence s'' = fence s' \<and> user s'' = user s'
              \<and> map_of (calls s'') t = None))
     \<and> - ERESTARTSYS < 0
     \<and> - ERESTARTSYS \<notin> {0, - EINVAL, - ENOTTY, - ENOMEM, DMAPP_BUFFER_SIZE, 1}"
proof (intro conjI allI impI)
  let ?s1 = "s\<lparr>calls := put t (LockWait u p p) (calls s)\<rparr>"
  have e: "step (EvIoctl t u DMAPP_IOCTL_BUFFER_LOCK fd) s = Some (None, ?s1)"
    using assms(1,3,2) by (rule step_lock_enter)
  have m: "map_of (calls ?s1) t = Some (LockWait u p p)" by simp
  have "step (EvInterrupt t) ?s1 = Some (Some (- ERESTARTSYS), s)"
    unfolding step_interrupt_frame [OF m] using del_None [OF assms(2)] by simp
  with e show "\<exists>s1. step (EvIoctl t u DMAPP_IOCTL_BUFFER_LOCK fd) s = Some (None, s1)
          \<and> step (EvInterrupt t) s1 = Some (Some (- ERESTARTSYS), s)"
    by blast
next
  fix s' :: dmapp_state assume m: "map_of (calls s') t = Some (LockWait u p p)"
  have "map_of (del t (calls s')) t = None"
    by (simp add: del_def map_of_eq_None_iff image_iff)
  then show "\<exists>s''. step (EvInterrupt t) s' = Some (Some (- ERESTARTSYS), s'')
              \<and> mem s'' = mem s' \<and> fence s'' = fence s' \<and> user s'' = user s'
              \<and> map_of (calls s'') t = None"
    unfolding step_interrupt_frame [OF m] by simp
next
  show "- ERESTARTSYS < 0" by (simp add: ERESTARTSYS_def)
  show "- ERESTARTSYS \<notin> {0, - EINVAL, - ENOTTY, - ENOMEM, DMAPP_BUFFER_SIZE, 1}"
    by (simp add: ERESTARTSYS_def EINVAL_def ENOTTY_def ENOMEM_def DMAPP_BUFFER_SIZE_def)
qed

theorem C7_interrupted_lock_witness:
  "registered ready 1 0 \<and> map_of (calls ready) 11 = None \<and> \<not> locked ready 1
   \<and> (\<exists>s1. step (EvIoctl 11 1 DMAPP_IOCTL_BUFFER_LOCK 0) ready = Some (None, s1)
          \<and> step (EvInterrupt 11) s1 = Some (Some (- 512), ready))
   \<and> map_of (calls in_first_turn) 11 = Some (LockWait 1 0 0)
   \<and> (\<exists>s''. step (EvInterrupt 11) in_first_turn = Some (Some (- 512), s'')
          \<and> mem s'' = mem in_first_turn \<and> fence s'' = fence in_first_turn
          \<and> map_of (calls s'') 11 = None)"
proof -
  have b: "registered ready 1 0" "map_of (calls ready) 11 = None" "\<not> locked ready 1"
    by (simp_all add: registered_def ready_def locked_def)
  have c: "map_of (calls in_first_turn) 11 = Some (LockWait 1 0 0)"
    by (simp add: in_first_turn_def)
  note B = C7_interrupted_lock_changes_nothing [OF b, of 0]
  from B have 1: "\<exists>s1. step (EvIoctl 11 1 DMAPP_IOCTL_BUFFER_LOCK 0) ready = Some (None, s1)
          \<and> step (EvInterrupt 11) s1 = Some (Some (- 512), ready)"
    by (simp add: ERESTARTSYS_def del: step.simps)
  from B c have 2: "\<exists>s''. step (EvInterrupt 11) in_first_turn = Some (Some (- 512), s'')
          \<and> mem s'' = mem in_first_turn \<and> fence s'' = fence in_first_turn
          \<and> map_of (calls s'') 11 = None"
    unfolding ERESTARTSYS_def by blast
  from b c 1 2 show ?thesis by (intro conjI)
qed

section \<open>The first turn\<close>





section \<open>The duplicate signal\<close>

text \<open>
  C6 (as the code has it). An unlock that finds the target fence signalled already logs
  the failure and still clears the flag, but returns the error of \<open>dma_fence_signal\<close>
  (\<open>-EINVAL\<close>) to its caller. A release that finds the fence it chose signalled
  already at its test skips the signal, logs no error and returns 0. A release whose
  fence is signalled between the test and its own \<open>dma_fence_signal\<close> logs the failure
  and returns \<open>-EINVAL\<close>. In both cases the flag of the closing user is gone with its
  struct, which the release frees before the test.
\<close>

theorem C6_duplicate_signal_reaches_caller:
  "(\<forall>s t u f. map_of (calls s) t = Some (UnlockSignal u f) \<and> fence s f = Signaled \<longrightarrow>
       pr_err (EvSignal t) s
       \<and> (\<exists>s1 s2. step (EvSignal t) s = Some (None, s1) \<and> fence s1 = fence s
          \<and> step (EvUnlocked t) s1 = Some (Some (- EINVAL), s2)
          \<and> \<not> locked s2 u \<and> fence s2 = fence s))
   \<and> - EINVAL < 0
   \<and> (\<forall>s t f. map_of (calls s) t = Some (ReleaseCheck (Some f)) \<and> fence s f = Signaled \<longrightarrow>
       \<not> pr_err (EvCloseCheck t) s
       \<and> (\<exists>s1. step (EvCloseCheck t) s = Some (Some 0, s1) \<and> fence s1 = fence s
          \<and> map_of (calls s1) t = None))
   \<and> (\<forall>s t f. map_of (calls s) t = Some (ReleaseSignal f) \<and> fence s f = Signaled \<longrightarrow>
       pr_err (EvCloseSignal t) s
       \<and> (\<exists>s1. step (EvCloseSignal t) s = Some (Some (- EINVAL), s1) \<and> fence s1 = fence s
          \<and> map_of (calls s1) t = None))
   \<and> (\<forall>s t u r s'. step (EvClose t u) s = Some (r, s') \<longrightarrow>
       mem s' u = None \<and> \<not> locked s' u \<and> (\<exists>sf. map_of (calls s') t = Some (ReleaseCheck sf)))"
proof (intro conjI allI impI)
  fix s :: dmapp_state and t u f
  assume a: "map_of (calls s) t = Some (UnlockSignal u f) \<and> fence s f = Signaled"
  let ?s1 = "s\<lparr>calls := put t (UnlockClear u (- EINVAL)) (calls s)\<rparr>"
  from a have m0: "map_of (calls s) t = Some (UnlockSignal u f)" and f: "fence s f = Signaled"
    by simp_all
  from m0 f show "pr_err (EvSignal t) s"
    by (simp add: pr_err_def dma_fence_signal_def EINVAL_def)
  have "step (EvSignal t) s = Some (None, ?s1)"
    unfolding step_signal_frame [OF m0] using f by simp
  moreover have m: "map_of (calls ?s1) t = Some (UnlockClear u (- EINVAL))" by simp
  moreover obtain s2 where "step (EvUnlocked t) ?s1 = Some (Some (- EINVAL), s2)"
    "\<not> locked s2 u" "fence s2 = fence s"
    unfolding step_unlocked_frame [OF m] by (simp add: locked_def)
  ultimately show "\<exists>s1 s2. step (EvSignal t) s = Some (None, s1) \<and> fence s1 = fence s
          \<and> step (EvUnlocked t) s1 = Some (Some (- EINVAL), s2)
          \<and> \<not> locked s2 u \<and> fence s2 = fence s"
    by (intro exI [of _ ?s1] exI [of _ s2]) simp
next
  show "- EINVAL < 0" by (simp add: EINVAL_def)
next
  fix s :: dmapp_state and t f
  assume a: "map_of (calls s) t = Some (ReleaseCheck (Some f)) \<and> fence s f = Signaled"
  show "\<not> pr_err (EvCloseCheck t) s" by (simp add: pr_err_def)
  have "map_of (del t (calls s)) t = None"
    by (simp add: del_def map_of_eq_None_iff image_iff)
  with a show "\<exists>s1. step (EvCloseCheck t) s = Some (Some 0, s1) \<and> fence s1 = fence s
          \<and> map_of (calls s1) t = None"
    by (simp add: dmapp_cdev_release_check_def dma_fence_is_signaled_def)
next
  fix s :: dmapp_state and t f
  assume a: "map_of (calls s) t = Some (ReleaseSignal f) \<and> fence s f = Signaled"
  then show "pr_err (EvCloseSignal t) s"
    by (simp add: pr_err_def dma_fence_signal_def EINVAL_def)
  have "map_of (del t (calls s)) t = None"
    by (simp add: del_def map_of_eq_None_iff image_iff)
  with a show "\<exists>s1. step (EvCloseSignal t) s = Some (Some (- EINVAL), s1) \<and> fence s1 = fence s
          \<and> map_of (calls s1) t = None"
    by (simp add: dmapp_cdev_release_signal_def dma_fence_signal_def)
next
  fix s :: dmapp_state and t u r and s' :: dmapp_state
  assume "step (EvClose t u) s = Some (r, s')"
  then have d: "dmapp_cdev_release_disconnect t u s = (r, s')" by (simp split: if_splits)
  then have m: "mem s' u = None"
    by (auto simp: dmapp_cdev_release_disconnect_def split: if_splits)
  then show "mem s' u = None" .
  from m show "\<not> locked s' u" by (simp add: locked_def)
  from d show "\<exists>sf. map_of (calls s') t = Some (ReleaseCheck sf)"
    by (auto simp: dmapp_cdev_release_disconnect_def split: if_splits)
qed

theorem C6_duplicate_signal_witness:
  "run dup_unlock_pre attached \<noteq> None
   \<and> map_option (\<lambda>s. (map_of (calls s) 14, fence s 0)) (run dup_unlock_pre attached)
       = Some (Some (UnlockSignal 2 0), Signaled)
   \<and> map_option (\<lambda>s. pr_err (EvSignal 14) s
          \<and> (\<exists>s1 s2. step (EvSignal 14) s = Some (None, s1)
          \<and> step (EvUnlocked 14) s1 = Some (Some (- EINVAL), s2) \<and> \<not> locked s2 2))
        (run dup_unlock_pre attached) = Some True
   \<and> run dup_release attached \<noteq> None
   \<and> map_option (\<lambda>s. (map_of (calls s) 12, fence s 0)) (run dup_release attached)
       = Some (Some (ReleaseCheck (Some 0)), Signaled)
   \<and> map_option (\<lambda>s. \<not> pr_err (EvCloseCheck 12) s
          \<and> (\<exists>s1. step (EvCloseCheck 12) s = Some (Some 0, s1) \<and> fence s1 = fence s))
        (run dup_release attached) = Some True
   \<and> run late_release_pre attached \<noteq> None
   \<and> map_option (\<lambda>s. (map_of (calls s) 11, fence s 1)) (run late_release_pre attached)
       = Some (Some (ReleaseSignal 1), Signaled)
   \<and> map_option (\<lambda>s. pr_err (EvCloseSignal 11) s
          \<and> (\<exists>s1. step (EvCloseSignal 11) s = Some (Some (- EINVAL), s1)
             \<and> fence s1 = fence s))
        (run late_release_pre attached) = Some True
   \<and> map_option (\<lambda>s. locked s 2) (run dup_release_pre attached) = Some True
   \<and> map_option (\<lambda>s. \<exists>r s'. step (EvClose 12 2) s = Some (r, s') \<and> mem s' 2 = None
          \<and> \<not> locked s' 2)
        (run dup_release_pre attached) = Some True"
proof -
  have r: "run dup_unlock_pre attached \<noteq> None" by (simp add: scen_defs)
  then obtain s where s: "run dup_unlock_pre attached = Some s" by blast
  have "map_option (\<lambda>s. (map_of (calls s) 14, fence s 0)) (run dup_unlock_pre attached)
       = Some (Some (UnlockSignal 2 0), Signaled)"
    by (simp add: scen_defs)
  with s have a: "map_of (calls s) 14 = Some (UnlockSignal 2 0)" "fence s 0 = Signaled"
    by simp_all
  have r': "run dup_release attached \<noteq> None" by (simp add: scen_defs)
  then obtain s' where s': "run dup_release attached = Some s'" by blast
  have "map_option (\<lambda>s. (map_of (calls s) 12, fence s 0)) (run dup_release attached)
       = Some (Some (ReleaseCheck (Some 0)), Signaled)"
    by (simp add: scen_defs)
  with s' have b: "map_of (calls s') 12 = Some (ReleaseCheck (Some 0))" "fence s' 0 = Signaled"
    by simp_all
  have r'': "run late_release_pre attached \<noteq> None" by (simp add: scen_defs)
  then obtain s'' where s'': "run late_release_pre attached = Some s''" by blast
  have "map_option (\<lambda>s. (map_of (calls s) 11, fence s 1)) (run late_release_pre attached)
       = Some (Some (ReleaseSignal 1), Signaled)"
    by (simp add: scen_defs)
  with s'' have c: "map_of (calls s'') 11 = Some (ReleaseSignal 1)" "fence s'' 1 = Signaled"
    by simp_all
  note T = C6_duplicate_signal_reaches_caller
  from T a have 1: "pr_err (EvSignal 14) s
      \<and> (\<exists>s1 s2. step (EvSignal 14) s = Some (None, s1)
          \<and> step (EvUnlocked 14) s1 = Some (Some (- EINVAL), s2) \<and> \<not> locked s2 2)"
    by blast
  from T b have 2: "\<not> pr_err (EvCloseCheck 12) s'
      \<and> (\<exists>s1. step (EvCloseCheck 12) s' = Some (Some 0, s1) \<and> fence s1 = fence s')"
    by blast
  from T c have 3: "pr_err (EvCloseSignal 11) s''
      \<and> (\<exists>s1. step (EvCloseSignal 11) s'' = Some (Some (- EINVAL), s1) \<and> fence s1 = fence s'')"
    by blast
  have l: "map_option (\<lambda>s. locked s 2) (run dup_release_pre attached) = Some True"
    by (simp add: scen_defs)
  have "map_option (\<lambda>s. step (EvClose 12 2) s \<noteq> None) (run dup_release_pre attached)
      = Some True"
    by (simp add: scen_defs)
  then obtain sp rp sq where sp: "run dup_release_pre attached = Some sp"
    and cl: "step (EvClose 12 2) sp = Some (rp, sq)" by auto
  from T cl have "mem sq 2 = None \<and> \<not> locked sq 2" by blast
  with cl have 4: "\<exists>r s'. step (EvClose 12 2) sp = Some (r, s') \<and> mem s' 2 = None
      \<and> \<not> locked s' 2" by blast
  from r s a 1 r' s' b 2 r'' s'' c 3 l sp 4 show ?thesis by (simp del: step.simps)
qed

text \<open>
  C6 as stated fails for unlock: the second of two unlock calls of user 2 finds
  \<open>fence[0]\<close> signalled, and its caller receives -22 (\<open>-EINVAL\<close>), not success; the flag
  is cleared. It fails for release as well: in \<open>late_release\<close> the release of user 1
  finds \<open>fence[1]\<close> pending at its test and signalled at its signal, and returns -22.
\<close>

theorem C6_duplicate_returns_error_counterexample:
  "dmapp_platform_driver_probe env_ok = Inr attached
   \<and> run dup_unlock attached \<noteq> None
   \<and> map_option (\<lambda>s. (map_of (calls s) 14, fence s 0)) (run dup_unlock_pre attached)
       = Some (Some (UnlockSignal 2 0), Signaled)
   \<and> returns dup_unlock attached
       = [(EvOpen (Some 1), 0), (EvOpen (Some 2), 0), (EvLocked 12, 0), (EvUnlocked 14, - 22)]
   \<and> map_option (\<lambda>s. locked s 2) (run dup_unlock attached) = Some False
   \<and> run late_release attached \<noteq> None
   \<and> map_option (\<lambda>s. (map_of (calls s) 11, fence s 1)) (run late_release_pre attached)
       = Some (Some (ReleaseSignal 1), Signaled)
   \<and> map_option (pr_err (EvCloseSignal 11)) (run late_release_pre attached) = Some True
   \<and> returns late_release attached
       = [(EvOpen (Some 1), 0), (EvOpen (Some 2), 0), (EvLocked 12, 0), (EvUnlocked 13, 0),
          (EvLocked 11, 0), (EvUnlocked 14, 0), (EvOpen (Some 3), 0), (EvLocked 15, 0),
          (EvUnlocked 15, 0), (EvCloseSignal 11, - 22)]"
  by (simp add: probe_env_ok scen_defs EINVAL_def pr_err_def)

section \<open>Open and release\<close>

lemma disconnect_registered:
  assumes "registered s u p"
  shows "dmapp_cdev_release_disconnect t u s
    = (None, s\<lparr>user := (user s)(p := None), mem := (mem s)(u := None),
         calls := put t (ReleaseCheck (if locked s u then Some (1 - p) else None)) (calls s)\<rparr>)"
  using assms by (auto simp: registered_def dmapp_cdev_release_disconnect_def two)

lemma step_close_registered:
  assumes "registered s u p" "map_of (calls s) t = None" "\<not> busy s u"
  shows "step (EvClose t u) s
    = Some (None, s\<lparr>user := (user s)(p := None), mem := (mem s)(u := None),
         calls := put t (ReleaseCheck (if locked s u then Some (1 - p) else None)) (calls s)\<rparr>)"
  using assms disconnect_registered [OF assms(1)] by (simp add: registered_def)

lemma step_close_check_frame:
  "map_of (calls s) t = Some (ReleaseCheck sf) \<Longrightarrow>
   step (EvCloseCheck t) s = Some (dmapp_cdev_release_check t sf s)"
  by simp

lemma step_close_signal_frame:
  "map_of (calls s) t = Some (ReleaseSignal f) \<Longrightarrow>
   step (EvCloseSignal t) s = Some (dmapp_cdev_release_signal t f s)"
  by simp

text \<open>
  C8. When a participant of parity \<open>p\<close> closes its file inside its turn, the release
  signals \<open>fence[1-p]\<close>, as its unlock would have, so that a lock of the other participant
  asleep on that fence can wake; when the fence is signalled already the release skips
  the signal and returns 0. A release outside the turn signals nothing.
\<close>

theorem C8_release_inside_turn_signals_other_fence:
  assumes "registered s u p" and "map_of (calls s) t = None" and "\<not> busy s u"
  shows "(locked s u \<longrightarrow>
       (\<exists>s1. step (EvClose t u) s = Some (None, s1) \<and> user s1 p = None \<and> mem s1 u = None
          \<and> fence s1 = fence s \<and> map_of (calls s1) t = Some (ReleaseCheck (Some (1 - p)))
          \<and> (fence s (1 - p) = Pending \<longrightarrow>
               (\<exists>s2 s3. step (EvCloseCheck t) s1 = Some (None, s2)
                  \<and> step (EvCloseSignal t) s2 = Some (Some 0, s3)
                  \<and> fence s3 = fence (snd (dma_fence_signal (1 - p) s))
                  \<and> fence s3 (1 - p) = Signaled
                  \<and> (\<forall>t' v. map_of (calls s) t' = Some (LockWait v (1 - p) (1 - p)) \<longrightarrow>
                        step (EvWake t') s3 \<noteq> None)))
          \<and> (fence s (1 - p) = Signaled \<longrightarrow>
               (\<exists>s2. step (EvCloseCheck t) s1 = Some (Some 0, s2) \<and> fence s2 = fence s))))
     \<and> (\<not> locked s u \<longrightarrow>
       (\<exists>s1 s2. step (EvClose t u) s = Some (None, s1) \<and> user s1 p = None
          \<and> map_of (calls s1) t = Some (ReleaseCheck None)
          \<and> step (EvCloseCheck t) s1 = Some (Some 0, s2) \<and> fence s2 = fence s
          \<and> signals [EvClose t u, EvCloseCheck t] s = []))"
proof (intro conjI impI)
  assume l: "locked s u"
  let ?s1 = "s\<lparr>user := (user s)(p := None), mem := (mem s)(u := None),
         calls := put t (ReleaseCheck (Some (1 - p))) (calls s)\<rparr>"
  have c: "step (EvClose t u) s = Some (None, ?s1)"
    using step_close_registered [OF assms] l by simp
  have m: "map_of (calls ?s1) t = Some (ReleaseCheck (Some (1 - p)))" by simp
  have pend: "\<exists>s2 s3. step (EvCloseCheck t) ?s1 = Some (None, s2)
                  \<and> step (EvCloseSignal t) s2 = Some (Some 0, s3)
                  \<and> fence s3 = fence (snd (dma_fence_signal (1 - p) s))
                  \<and> fence s3 (1 - p) = Signaled
                  \<and> (\<forall>t' v. map_of (calls s) t' = Some (LockWait v (1 - p) (1 - p)) \<longrightarrow>
                        step (EvWake t') s3 \<noteq> None)"
    if f: "fence s (1 - p) = Pending"
  proof -
    let ?s2 = "?s1\<lparr>calls := put t (ReleaseSignal (1 - p)) (calls ?s1)\<rparr>"
    let ?s3 = "?s2\<lparr>fence := (fence s)(1 - p := Signaled), calls := del t (calls ?s2)\<rparr>"
    have k: "step (EvCloseCheck t) ?s1 = Some (None, ?s2)"
      unfolding step_close_check_frame [OF m] using f
      by (simp add: dmapp_cdev_release_check_def dma_fence_is_signaled_def)
    have m2: "map_of (calls ?s2) t = Some (ReleaseSignal (1 - p))" by simp
    have g: "step (EvCloseSignal t) ?s2 = Some (Some 0, ?s3)"
      unfolding step_close_signal_frame [OF m2] using f
      by (simp add: dmapp_cdev_release_signal_def dma_fence_signal_def)
    have f3: "fence ?s3 = fence (snd (dma_fence_signal (1 - p) s))" "fence ?s3 (1 - p) = Signaled"
      using f by (simp_all add: dma_fence_signal_def)
    have "calls ?s3 = calls s" using del_None [OF assms(2)] by simp
    then have w: "step (EvWake t') ?s3 \<noteq> None"
      if "map_of (calls s) t' = Some (LockWait v (1 - p) (1 - p))" for t' v
      using step_wake_frame [of ?s3 t' v "1 - p" "1 - p"] that by simp
    from k g f3 w show ?thesis by blast
  qed
  have dup: "\<exists>s2. step (EvCloseCheck t) ?s1 = Some (Some 0, s2) \<and> fence s2 = fence s"
    if f: "fence s (1 - p) = Signaled"
    unfolding step_close_check_frame [OF m] using f
    by (simp add: dmapp_cdev_release_check_def dma_fence_is_signaled_def)
  from c m pend dup
  show "\<exists>s1. step (EvClose t u) s = Some (None, s1) \<and> user s1 p = None \<and> mem s1 u = None
          \<and> fence s1 = fence s \<and> map_of (calls s1) t = Some (ReleaseCheck (Some (1 - p)))
          \<and> (fence s (1 - p) = Pending \<longrightarrow>
               (\<exists>s2 s3. step (EvCloseCheck t) s1 = Some (None, s2)
                  \<and> step (EvCloseSignal t) s2 = Some (Some 0, s3)
                  \<and> fence s3 = fence (snd (dma_fence_signal (1 - p) s))
                  \<and> fence s3 (1 - p) = Signaled
                  \<and> (\<forall>t' v. map_of (calls s) t' = Some (LockWait v (1 - p) (1 - p)) \<longrightarrow>
                        step (EvWake t') s3 \<noteq> None)))
          \<and> (fence s (1 - p) = Signaled \<longrightarrow>
               (\<exists>s2. step (EvCloseCheck t) s1 = Some (Some 0, s2) \<and> fence s2 = fence s))"
    by (intro exI [of _ ?s1]) simp
next
  assume l: "\<not> locked s u"
  let ?s1 = "s\<lparr>user := (user s)(p := None), mem := (mem s)(u := None),
         calls := put t (ReleaseCheck None) (calls s)\<rparr>"
  have c: "step (EvClose t u) s = Some (None, ?s1)"
    using step_close_registered [OF assms] l by simp
  have m: "map_of (calls ?s1) t = Some (ReleaseCheck None)" by simp
  obtain s2 where k: "step (EvCloseCheck t) ?s1 = Some (Some 0, s2)" "fence s2 = fence s"
    unfolding step_close_check_frame [OF m] by (simp add: dmapp_cdev_release_check_def)
  have "signals [EvClose t u, EvCloseCheck t] s = []"
    using c k(1) m by (simp add: signalled_def del: step.simps)
  with c m k show "\<exists>s1 s2. step (EvClose t u) s = Some (None, s1) \<and> user s1 p = None
          \<and> map_of (calls s1) t = Some (ReleaseCheck None)
          \<and> step (EvCloseCheck t) s1 = Some (Some 0, s2) \<and> fence s2 = fence s
          \<and> signals [EvClose t u, EvCloseCheck t] s = []"
    by (intro exI [of _ ?s1] exI [of _ s2]) simp
qed


theorem C8_release_inside_turn_witness:
  "registered in_first_turn 2 1 \<and> map_of (calls in_first_turn) 12 = None
   \<and> \<not> busy in_first_turn 2 \<and> locked in_first_turn 2 \<and> fence in_first_turn 0 = Pending
   \<and> map_of (calls in_first_turn) 11 = Some (LockWait 1 0 0)
   \<and> (\<exists>s1 s2 s3. step (EvClose 12 2) in_first_turn = Some (None, s1) \<and> user s1 1 = None
         \<and> step (EvCloseCheck 12) s1 = Some (None, s2)
         \<and> step (EvCloseSignal 12) s2 = Some (Some 0, s3)
         \<and> fence s3 0 = Signaled \<and> step (EvWake 11) s3 \<noteq> None)
   \<and> registered ready 2 1 \<and> map_of (calls ready) 12 = None \<and> \<not> busy ready 2
   \<and> \<not> locked ready 2
   \<and> (\<exists>s1 s2. step (EvClose 12 2) ready = Some (None, s1)
         \<and> step (EvCloseCheck 12) s1 = Some (Some 0, s2) \<and> fence s2 = fence ready)
   \<and> run dup_release_pre attached \<noteq> None
   \<and> map_option (\<lambda>s. registered s 2 1 \<and> map_of (calls s) 12 = None \<and> \<not> busy s 2
          \<and> locked s 2 \<and> fence s 0 = Signaled) (run dup_release_pre attached) = Some True
   \<and> map_option (\<lambda>s. \<exists>s1 s2. step (EvClose 12 2) s = Some (None, s1)
          \<and> step (EvCloseCheck 12) s1 = Some (Some 0, s2) \<and> fence s2 = fence s)
        (run dup_release_pre attached) = Some True"
proof -
  have a: "registered in_first_turn 2 1" "map_of (calls in_first_turn) 12 = None"
    "\<not> busy in_first_turn 2" "locked in_first_turn 2" "fence in_first_turn 0 = Pending"
    "map_of (calls in_first_turn) 11 = Some (LockWait 1 0 0)"
    by (simp_all add: registered_def in_first_turn_def busy_def locked_def)
  have b: "registered ready 2 1" "map_of (calls ready) 12 = None" "\<not> busy ready 2"
    "\<not> locked ready 2"
    by (simp_all add: registered_def ready_def busy_def locked_def)
  have r: "run dup_release_pre attached \<noteq> None" by (simp add: scen_defs)
  then obtain s where s: "run dup_release_pre attached = Some s" by blast
  have "map_option (\<lambda>s. registered s 2 1 \<and> map_of (calls s) 12 = None \<and> \<not> busy s 2
          \<and> locked s 2 \<and> fence s 0 = Signaled) (run dup_release_pre attached) = Some True"
    by (simp add: scen_defs registered_def)
  with s have c: "registered s 2 1" "map_of (calls s) 12 = None" "\<not> busy s 2" "locked s 2"
    "fence s 0 = Signaled" by simp_all
  note A = C8_release_inside_turn_signals_other_fence [OF a(1,2,3)]
  note B = C8_release_inside_turn_signals_other_fence [OF b(1,2,3)]
  note C = C8_release_inside_turn_signals_other_fence [OF c(1,2,3)]
  from A a(4,5,6) have 1: "\<exists>s1 s2 s3. step (EvClose 12 2) in_first_turn = Some (None, s1)
         \<and> user s1 1 = None
         \<and> step (EvCloseCheck 12) s1 = Some (None, s2)
         \<and> step (EvCloseSignal 12) s2 = Some (Some 0, s3)
         \<and> fence s3 0 = Signaled \<and> step (EvWake 11) s3 \<noteq> None"
    by (simp del: step.simps; blast)
  from B b(4) have 2: "\<exists>s1 s2. step (EvClose 12 2) ready = Some (None, s1)
         \<and> step (EvCloseCheck 12) s1 = Some (Some 0, s2) \<and> fence s2 = fence ready"
    by (simp del: step.simps; blast)
  from C c(4,5) have 3: "\<exists>s1 s2. step (EvClose 12 2) s = Some (None, s1)
          \<and> step (EvCloseCheck 12) s1 = Some (Some 0, s2) \<and> fence s2 = fence s"
    by (simp del: step.simps; blast)
  from a b r s c 1 2 3 show ?thesis by (simp del: step.simps)
qed

text \<open>
  C9. With both slots taken a third open fails with \<open>-EINVAL\<close> and changes nothing.
  Once one of the two participants has closed its file, the next open succeeds and gets
  the slot that was freed, which is the parity the ioctl then reports. The scan takes
  slot 0 whenever it is free.
\<close>

theorem C9_third_open_rejected_freed_slot_reused:
  assumes "registered s a 0" and "registered s b 1" and "mem s c = None"
  shows "step (EvOpen (Some c)) s = Some (Some (- EINVAL), s)
     \<and> (\<forall>p x t c'. registered s x p \<and> \<not> busy s x \<and> map_of (calls s) t = None
            \<and> (c' = x \<or> mem s c' = None) \<longrightarrow>
          (\<exists>s1 s2. step (EvClose t x) s = Some (None, s1)
             \<and> user s1 p = None \<and> user s1 (1 - p) = user s (1 - p)
             \<and> step (EvOpen (Some c')) s1 = Some (Some 0, s2)
             \<and> user s2 p = Some c' \<and> user s2 (1 - p) = user s (1 - p) \<and> \<not> locked s2 c'
             \<and> (\<forall>t' fd. t' \<noteq> t \<and> map_of (calls s) t' = None \<longrightarrow>
                   step (EvIoctl t' c' DMAPP_IOCTL_GET_BUFFER_PARITY fd) s2
                     = Some (Some (int p), s2))))
     \<and> (\<forall>s' d. user s' 0 = None \<longrightarrow>
           fst (dmapp_cdev_open (Some d) s') = 0
           \<and> user (snd (dmapp_cdev_open (Some d) s')) 0 = Some d
           \<and> user (snd (dmapp_cdev_open (Some d) s')) 1 = user s' 1)"
proof (intro conjI allI impI)
  from assms show "step (EvOpen (Some c)) s = Some (Some (- EINVAL), s)"
    by (simp add: registered_def dmapp_cdev_open_def)
next
  fix p x t c'
  assume h: "registered s x p \<and> \<not> busy s x \<and> map_of (calls s) t = None
            \<and> (c' = x \<or> mem s c' = None)"
  then have x: "registered s x p" "\<not> busy s x" "map_of (calls s) t = None"
    "c' = x \<or> mem s c' = None" by simp_all
  let ?s1 = "s\<lparr>user := (user s)(p := None), mem := (mem s)(x := None),
         calls := put t (ReleaseCheck (if locked s x then Some (1 - p) else None)) (calls s)\<rparr>"
  let ?s2 = "?s1\<lparr>user := (user ?s1)(p := Some c'),
         mem := (mem ?s1)(c' \<mapsto> \<lparr>is_locked = False\<rparr>)\<rparr>"
  from x(1) have p: "p < 2" "user s p = Some x" by (simp_all add: registered_def)
  from assms have ab: "user s 0 = Some a" "user s 1 = Some b" "a \<noteq> b" "mem s a \<noteq> None"
    by (auto simp: registered_def)
  have c: "step (EvClose t x) s = Some (None, ?s1)" by (rule step_close_registered [OF x(1,3,2)])
  have fr: "mem ?s1 c' = None" using x(4) by auto
  have o: "dmapp_cdev_open (Some c') ?s1 = (0, ?s2)"
    using p ab by (auto simp: dmapp_cdev_open_def two)
  have o': "step (EvOpen (Some c')) ?s1 = Some (Some 0, ?s2)"
    using fr o by simp
  have u: "user ?s1 p = None" "user ?s1 (1 - p) = user s (1 - p)" "user ?s2 p = Some c'"
    "user ?s2 (1 - p) = user s (1 - p)" "\<not> locked ?s2 c'"
    using p(1) by (auto simp: two locked_def)
  have ca: "c' \<noteq> a" if "p = 1"
    using x(4) that p(2) ab by auto
  have q: "step (EvIoctl t' c' DMAPP_IOCTL_GET_BUFFER_PARITY fd) ?s2 = Some (Some (int p), ?s2)"
    if "t' \<noteq> t \<and> map_of (calls s) t' = None" for t' fd
    using that p ab ca
    by (auto simp: dmapp_cdev_ioctl_validate_def two cmd_defs locked_def)
  from c o' u q
  show "\<exists>s1 s2. step (EvClose t x) s = Some (None, s1)
             \<and> user s1 p = None \<and> user s1 (1 - p) = user s (1 - p)
             \<and> step (EvOpen (Some c')) s1 = Some (Some 0, s2)
             \<and> user s2 p = Some c' \<and> user s2 (1 - p) = user s (1 - p) \<and> \<not> locked s2 c'
             \<and> (\<forall>t' fd. t' \<noteq> t \<and> map_of (calls s) t' = None \<longrightarrow>
                   step (EvIoctl t' c' DMAPP_IOCTL_GET_BUFFER_PARITY fd) s2
                     = Some (Some (int p), s2))"
    by (intro exI [of _ ?s1] exI [of _ ?s2]) (simp del: step.simps)
next
  fix s' :: dmapp_state and d assume "user s' 0 = None"
  then show "fst (dmapp_cdev_open (Some d) s') = 0"
    "user (snd (dmapp_cdev_open (Some d) s')) 0 = Some d"
    "user (snd (dmapp_cdev_open (Some d) s')) 1 = user s' 1"
    by (simp_all add: dmapp_cdev_open_def)
qed


theorem C9_third_open_rejected_witness:
  "registered ready 1 0 \<and> registered ready 2 1 \<and> mem ready 3 = None
   \<and> step (EvOpen (Some 3)) ready = Some (Some (- 22), ready)
   \<and> \<not> busy ready 2 \<and> map_of (calls ready) 12 = None
   \<and> (\<exists>s1 s2. step (EvClose 12 2) ready = Some (None, s1)
         \<and> step (EvOpen (Some 3)) s1 = Some (Some 0, s2)
         \<and> user s2 1 = Some 3 \<and> user s2 0 = Some 1
         \<and> step (EvIoctl 13 3 DMAPP_IOCTL_GET_BUFFER_PARITY 0) s2 = Some (Some 1, s2))
   \<and> \<not> busy ready 1 \<and> map_of (calls ready) 11 = None
   \<and> (\<exists>s1 s2. step (EvClose 11 1) ready = Some (None, s1)
         \<and> step (EvOpen (Some 1)) s1 = Some (Some 0, s2)
         \<and> user s2 0 = Some 1 \<and> user s2 1 = Some 2
         \<and> step (EvIoctl 13 1 DMAPP_IOCTL_GET_BUFFER_PARITY 0) s2 = Some (Some 0, s2))
   \<and> user attached 0 = None \<and> fst (dmapp_cdev_open (Some 1) attached) = 0
   \<and> user (snd (dmapp_cdev_open (Some 1) attached)) 0 = Some 1"
proof -
  have a: "registered ready 1 0" "registered ready 2 1" "mem ready 3 = None"
    by (simp_all add: registered_def ready_def)
  have b: "\<not> busy ready 2" "map_of (calls ready) 12 = None" "\<not> busy ready 1"
    "map_of (calls ready) 11 = None" "map_of (calls ready) 13 = None"
    "user ready 0 = Some 1" "user ready 1 = Some 2" "user attached 0 = None"
    by (simp_all add: ready_def busy_def attached_def)
  note T = C9_third_open_rejected_freed_slot_reused [OF a]
  note S = T [THEN conjunct2, THEN conjunct1, rule_format]
  from T have 1: "step (EvOpen (Some 3)) ready = Some (Some (- 22), ready)"
    by (simp add: EINVAL_def del: step.simps)
  have h2: "registered ready 2 1 \<and> \<not> busy ready 2 \<and> map_of (calls ready) 12 = None
      \<and> (3 = 2 \<or> mem ready 3 = None)"
    using a b by simp
  from S [OF h2] obtain s1 s2 where e: "step (EvClose 12 2) ready = Some (None, s1)"
    "step (EvOpen (Some 3)) s1 = Some (Some 0, s2)" "user s2 1 = Some 3"
    "user s2 (1 - 1) = user ready (1 - 1)"
    and q: "\<forall>t' fd. t' \<noteq> 12 \<and> map_of (calls ready) t' = None \<longrightarrow>
      step (EvIoctl t' 3 DMAPP_IOCTL_GET_BUFFER_PARITY fd) s2 = Some (Some (int 1), s2)"
    by blast
  from q b(5) have "step (EvIoctl 13 3 DMAPP_IOCTL_GET_BUFFER_PARITY 0) s2 = Some (Some 1, s2)"
    by (simp del: step.simps)
  moreover from e(4) b(6) have "user s2 0 = Some 1" by simp
  ultimately have 2: "\<exists>s1 s2. step (EvClose 12 2) ready = Some (None, s1)
         \<and> step (EvOpen (Some 3)) s1 = Some (Some 0, s2)
         \<and> user s2 1 = Some 3 \<and> user s2 0 = Some 1
         \<and> step (EvIoctl 13 3 DMAPP_IOCTL_GET_BUFFER_PARITY 0) s2 = Some (Some 1, s2)"
    using e(1,2,3) by blast
  have h3: "registered ready 1 0 \<and> \<not> busy ready 1 \<and> map_of (calls ready) 11 = None
      \<and> (1 = 1 \<or> mem ready 1 = None)"
    using a b by simp
  from S [OF h3] obtain s1' s2' where e': "step (EvClose 11 1) ready = Some (None, s1')"
    "step (EvOpen (Some 1)) s1' = Some (Some 0, s2')" "user s2' 0 = Some 1"
    "user s2' (1 - 0) = user ready (1 - 0)"
    and q': "\<forall>t' fd. t' \<noteq> 11 \<and> map_of (calls ready) t' = None \<longrightarrow>
      step (EvIoctl t' 1 DMAPP_IOCTL_GET_BUFFER_PARITY fd) s2' = Some (Some (int 0), s2')"
    by blast
  from q' b(5) have "step (EvIoctl 13 1 DMAPP_IOCTL_GET_BUFFER_PARITY 0) s2' = Some (Some 0, s2')"
    by (simp del: step.simps)
  moreover from e'(4) b(7) have "user s2' 1 = Some 2" by simp
  ultimately have 3: "\<exists>s1 s2. step (EvClose 11 1) ready = Some (None, s1)
         \<and> step (EvOpen (Some 1)) s1 = Some (Some 0, s2)
         \<and> user s2 0 = Some 1 \<and> user s2 1 = Some 2
         \<and> step (EvIoctl 13 1 DMAPP_IOCTL_GET_BUFFER_PARITY 0) s2 = Some (Some 0, s2)"
    using e'(1,2,3) by blast
  from T [THEN conjunct2, THEN conjunct2, rule_format, OF b(8), of 1]
  have 4: "fst (dmapp_cdev_open (Some 1) attached) = 0"
    "user (snd (dmapp_cdev_open (Some 1) attached)) 0 = Some 1" by simp_all
  from a b 1 2 3 4 show ?thesis by (intro conjI)
qed

section \<open>The moves of the token\<close>

lemma token_to_flag:
  assumes i: "turn_inv s" and fr: "map_of (calls s) t = Some (LockWoken u p w)"
  shows "\<exists>s'. step (EvLocked t) s = Some (Some 0, s')
     \<and> fence s p = Signaled \<and> \<not> flag s p \<and> fence s' p = Pending \<and> flag s' p \<and> in_turn s' p"
proof -
  let ?s' = "s\<lparr>fence := (fence s)(w := Pending),
     mem := (mem s)(u \<mapsto> \<lparr>is_locked = True\<rparr>), calls := del t (calls s)\<rparr>"
  from inv_at(3) [OF i fr] have ok: "p < 2" "w = p" "user s p = Some u" "\<not> locked s u"
    "fence s p = Signaled" by auto
  have st: "step (EvLocked t) s = Some (Some 0, ?s')" using fr by (rule step_locked_frame)
  from ok have nf: "\<not> flag s p" by (simp add: flag_def)
  from ok have fl: "flag ?s' p" by (simp add: flag_def locked_def)
  have "\<not> clearing ?s' u"
    using rest_not_clearing [OF i fr] by (simp add: clearing_def)
  with ok have it: "in_turn ?s' p" by (simp add: in_turn_def locked_def)
  from ok have "fence ?s' p = Pending" by simp
  with st ok(5) nf fl it show ?thesis by blast
qed

lemma token_to_fence:
  assumes i: "turn_inv s" and fr: "map_of (calls s) t = Some (UnlockSignal u f)"
  shows "\<exists>s'. step (EvSignal t) s = Some (None, s')
     \<and> in_turn s (1 - f) \<and> fence s f = Pending \<and> fence s' f = Signaled \<and> \<not> in_turn s' (1 - f)"
proof -
  let ?s' = "s\<lparr>fence := (fence s)(f := Signaled), calls := put t (UnlockClear u 0) (calls s)\<rparr>"
  from inv_at(3) [OF i fr] have ok: "f < 2" "user s (1 - f) = Some u" "locked s u" by simp_all
  obtain r s1 where sg: "dmapp_cdev_ioctl_signal t u f s = (r, s1)" by (cases "dmapp_cdev_ioctl_signal t u f s")
  from step_signal(3) [OF i fr sg] have pe: "fence s f = Pending" by (simp add: fence_cases)
  then have st: "step (EvSignal t) s = Some (None, ?s')"
    unfolding step_signal_frame [OF fr] by simp
  have "\<not> clearing s u"
    unfolding clearing_at [OF i fr] using rest_not_clearing [OF i fr] by simp
  with ok have it: "in_turn s (1 - f)" by (simp add: in_turn_def)
  have "clearing ?s' u" by (auto simp: clearing_def set_put_del)
  with ok have ni: "\<not> in_turn ?s' (1 - f)" by (simp add: in_turn_def)
  have "fence ?s' f = Signaled" by simp
  with st it pe ni show ?thesis by blast
qed

lemma flag_cleared:
  assumes i: "turn_inv s" and fr: "map_of (calls s) t = Some (UnlockClear u r)"
  shows "\<exists>s'. step (EvUnlocked t) s = Some (Some r, s')
     \<and> locked s u \<and> \<not> locked s' u \<and> fence s' = fence s"
proof -
  from inv_at(3) [OF i fr] have "locked s u" by simp
  then show ?thesis unfolding step_unlocked_frame [OF fr] by (simp add: locked_def)
qed

lemma token_to_release:
  assumes i: "turn_inv s" and t: "map_of (calls s) t = None" and nb: "\<not> busy s u"
    and p: "p < 2" and us: "user s p = Some u" and it: "in_turn s p"
  shows "\<exists>s'. step (EvClose t u) s = Some (None, s')
     \<and> map_of (calls s') t = Some (ReleaseCheck (Some (1 - p))) \<and> \<not> flag s' p
     \<and> fence s' = fence s"
proof -
  let ?s' = "s\<lparr>user := (user s)(p := None), mem := (mem s)(u := None),
         calls := put t (ReleaseCheck (if locked s u then Some (1 - p) else None)) (calls s)\<rparr>"
  from invD_mem [OF i us p] have m: "mem s u \<noteq> None" .
  have "user s 0 \<noteq> Some u" if "p = 1"
    using invD_slots [OF i, where i=0 and j=1 and u=u] us that by auto
  with p us m have r: "registered s u p" by (simp add: registered_def)
  from it us have l: "locked s u" by (simp add: in_turn_def)
  have st: "step (EvClose t u) s = Some (None, ?s')" using r t nb by (rule step_close_registered)
  have "\<not> flag ?s' p" by (simp add: flag_def)
  moreover from l have "map_of (calls ?s') t = Some (ReleaseCheck (Some (1 - p)))" by simp
  moreover have "fence ?s' = fence s" by simp
  ultimately show ?thesis using st by blast
qed

lemma release_goes_on:
  assumes i: "turn_inv s" and fr: "map_of (calls s) t = Some (ReleaseCheck (Some f))"
  shows "\<exists>s'. step (EvCloseCheck t) s = Some (None, s')
     \<and> map_of (calls s') t = Some (ReleaseSignal f) \<and> fence s' = fence s"
proof -
  from inv_at(3) [OF i fr] have f: "f < 2" by simp
  have "signaled_fences s = 0" using i fr by (rule abandon_no_signal) (simp add: abandoning_def)
  from this f have "fence s f \<noteq> Signaled" by (rule no_signal_pending)
  then have "step (EvCloseCheck t) s
      = Some (None, s\<lparr>calls := put t (ReleaseSignal f) (calls s)\<rparr>)"
    unfolding step_close_check_frame [OF fr]
    by (simp add: dmapp_cdev_release_check_def dma_fence_is_signaled_def)
  then show ?thesis by simp
qed

lemma release_to_fence:
  assumes i: "turn_inv s" and fr: "map_of (calls s) t = Some (ReleaseSignal f)"
  shows "\<exists>s'. step (EvCloseSignal t) s = Some (Some 0, s')
     \<and> fence s f = Pending \<and> fence s' f = Signaled \<and> map_of (calls s') t = None"
proof -
  obtain r s1 where sg: "dmapp_cdev_release_signal t f s = (r, s1)"
    by (cases "dmapp_cdev_release_signal t f s")
  from step_release_signal(3) [OF i fr sg] have pe: "fence s f = Pending"
    by (simp add: fence_cases)
  have n: "map_of (del t (calls s)) t = None"
    by (simp add: del_def map_of_eq_None_iff image_iff)
  from pe have "step (EvCloseSignal t) s
      = Some (Some 0, s\<lparr>fence := (fence s)(f := Signaled), calls := del t (calls s)\<rparr>)"
    unfolding step_close_signal_frame [OF fr]
    by (simp add: dmapp_cdev_release_signal_def dma_fence_signal_def)
  with pe n show ?thesis by simp
qed

text \<open>
  C10 (as the code has it). In every state that single-caller participants reach from
  the probe there is exactly one turn token, counting the signalled fences, the
  participants inside their turn (flag set, own unlock not yet past its signal) and the
  releases that have still to signal the fence they chose. In the quiet states, where no
  unlock or release is between its two halves, the signalled fences and the set flags
  add up to one. The token moves as follows. A lock that has returned from its wait
  finds its fence signalled and its flag clear, re-arms the fence and sets the flag. The
  signal of an unlock finds the caller inside its turn and the other fence pending, and
  signals it, which ends the turn; the unlock then clears the flag and leaves the fences
  as they are. A release inside the turn takes the token from the
  flag, finds the other fence pending at its test and signals it, returning 0.
\<close>

theorem C10_one_turn_token:
  assumes "dmapp_platform_driver_probe env = Inr s0" and "run1 evs s0 = Some s"
  shows "tokens s = 1
    \<and> (quiet s \<longrightarrow> signaled_fences s + flags s = 1)
    \<and> (\<forall>t u p w. map_of (calls s) t = Some (LockWoken u p w) \<longrightarrow>
         (\<exists>s'. step (EvLocked t) s = Some (Some 0, s')
            \<and> fence s p = Signaled \<and> \<not> flag s p
            \<and> fence s' p = Pending \<and> flag s' p \<and> in_turn s' p))
    \<and> (\<forall>t u f. map_of (calls s) t = Some (UnlockSignal u f) \<longrightarrow>
         (\<exists>s'. step (EvSignal t) s = Some (None, s')
            \<and> in_turn s (1 - f) \<and> fence s f = Pending
            \<and> fence s' f = Signaled \<and> \<not> in_turn s' (1 - f)))
    \<and> (\<forall>t u r. map_of (calls s) t = Some (UnlockClear u r) \<longrightarrow>
         (\<exists>s'. step (EvUnlocked t) s = Some (Some r, s')
            \<and> locked s u \<and> \<not> locked s' u \<and> fence s' = fence s))
    \<and> (\<forall>t u p. map_of (calls s) t = None \<and> \<not> busy s u \<and> p < 2 \<and> user s p = Some u
            \<and> in_turn s p \<longrightarrow>
         (\<exists>s'. step (EvClose t u) s = Some (None, s')
            \<and> map_of (calls s') t = Some (ReleaseCheck (Some (1 - p)))
            \<and> \<not> flag s' p \<and> fence s' = fence s))
    \<and> (\<forall>t f. map_of (calls s) t = Some (ReleaseCheck (Some f)) \<longrightarrow>
         (\<exists>s'. step (EvCloseCheck t) s = Some (None, s')
            \<and> map_of (calls s') t = Some (ReleaseSignal f) \<and> fence s' = fence s))
    \<and> (\<forall>t f. map_of (calls s) t = Some (ReleaseSignal f) \<longrightarrow>
         (\<exists>s'. step (EvCloseSignal t) s = Some (Some 0, s')
            \<and> fence s f = Pending \<and> fence s' f = Signaled \<and> map_of (calls s') t = None))"
proof -
  from assms(1) have s0: "s0 = attached" by (rule probe_attached)
  from inv_attached assms(2) [unfolded s0] have i: "turn_inv s" by (rule inv_run1)
  then have t: "tokens s = 1" by (rule inv_tokens)
  have "signaled_fences s + flags s = 1" if "quiet s"
    using t quiet_in_turn [OF that] quiet_abandoning [OF that]
    by (simp add: tokens_def flags_def)
  then have q: "quiet s \<longrightarrow> signaled_fences s + flags s = 1" by simp
  note a = token_to_flag [OF i] and b = token_to_fence [OF i] and c = token_to_release [OF i]
    and d = release_goes_on [OF i] and e = release_to_fence [OF i] and f = flag_cleared [OF i]
  show ?thesis
    apply (intro conjI allI impI)
           apply (rule t)
          apply (rule q [rule_format], assumption)
         apply (erule a)
        apply (erule b)
       apply (erule f)
      apply (elim conjE, erule (4) c)
     apply (erule d)
    apply (erule e)
    done
qed

theorem C10_one_turn_token_witness:
  "run1 three_turns attached \<noteq> None
   \<and> map_option tokens (run1 three_turns attached) = Some 1
   \<and> map_option quiet (run1 three_turns attached) = Some True
   \<and> map_option (\<lambda>s. signaled_fences s + flags s) (run1 three_turns attached) = Some 1
   \<and> map_option (\<lambda>s. map_of (calls s) 12) (run1 woken attached) = Some (Some (LockWoken 2 1 1))
   \<and> map_option (\<lambda>s. \<exists>s'. step (EvLocked 12) s = Some (Some 0, s')
          \<and> fence s 1 = Signaled \<and> \<not> flag s 1 \<and> fence s' 1 = Pending \<and> flag s' 1)
        (run1 woken attached) = Some True
   \<and> map_option (\<lambda>s. map_of (calls s) 12) (run1 unlocking attached)
        = Some (Some (UnlockSignal 2 0))
   \<and> map_option (\<lambda>s. \<exists>s'. step (EvSignal 12) s = Some (None, s')
          \<and> in_turn s 1 \<and> fence s 0 = Pending \<and> fence s' 0 = Signaled \<and> \<not> in_turn s' 1)
        (run1 unlocking attached) = Some True
   \<and> map_option (\<lambda>s. map_of (calls s) 12) (run1 both_flags attached)
        = Some (Some (UnlockClear 2 0))
   \<and> map_option (\<lambda>s. \<exists>s'. step (EvUnlocked 12) s = Some (Some 0, s')
          \<and> locked s 2 \<and> \<not> locked s' 2 \<and> fence s' = fence s)
        (run1 both_flags attached) = Some True
   \<and> map_option (\<lambda>s. (map_of (calls s) 12, busy s 2, user s 1, in_turn s 1))
        (run1 first_turn attached) = Some (None, False, Some 2, True)
   \<and> map_option (\<lambda>s. \<exists>s'. step (EvClose 12 2) s = Some (None, s')
          \<and> map_of (calls s') 12 = Some (ReleaseCheck (Some 0)) \<and> \<not> flag s' 1)
        (run1 first_turn attached) = Some True
   \<and> map_option (\<lambda>s. map_of (calls s) 12) (run1 abandoned attached)
        = Some (Some (ReleaseCheck (Some 0)))
   \<and> map_option (\<lambda>s. \<exists>s'. step (EvCloseCheck 12) s = Some (None, s')
          \<and> map_of (calls s') 12 = Some (ReleaseSignal 0))
        (run1 abandoned attached) = Some True
   \<and> map_option (\<lambda>s. map_of (calls s) 12) (run1 abandoning_turn attached)
        = Some (Some (ReleaseSignal 0))
   \<and> map_option (\<lambda>s. \<exists>s'. step (EvCloseSignal 12) s = Some (Some 0, s')
          \<and> fence s 0 = Pending \<and> fence s' 0 = Signaled)
        (run1 abandoning_turn attached) = Some True"
proof -
  note T = C10_one_turn_token [OF probe_env_ok]
  have r: "run1 three_turns attached \<noteq> None" by (simp add: scen_defs)
  then obtain s where s: "run1 three_turns attached = Some s" by blast
  have "map_option quiet (run1 three_turns attached) = Some True"
    by (simp add: scen_defs quiet_def)
  with s have q: "quiet s" by simp
  from T [OF s] q have 0: "tokens s = 1" "signaled_fences s + flags s = 1" by simp_all
  have fa: "map_option (\<lambda>s. map_of (calls s) 12) (run1 woken attached)
      = Some (Some (LockWoken 2 1 1))" by (simp add: scen_defs)
  then obtain sa where sa: "run1 woken attached = Some sa"
    and ma: "map_of (calls sa) 12 = Some (LockWoken 2 1 1)" by auto
  from T [OF sa] ma have 1: "\<exists>s'. step (EvLocked 12) sa = Some (Some 0, s')
      \<and> fence sa 1 = Signaled \<and> \<not> flag sa 1 \<and> fence s' 1 = Pending \<and> flag s' 1"
    by blast
  have fb: "map_option (\<lambda>s. map_of (calls s) 12) (run1 unlocking attached)
      = Some (Some (UnlockSignal 2 0))" by (simp add: scen_defs)
  then obtain sb where sb: "run1 unlocking attached = Some sb"
    and mb: "map_of (calls sb) 12 = Some (UnlockSignal 2 0)" by auto
  from T [OF sb, THEN conjunct2, THEN conjunct2, THEN conjunct2, THEN conjunct1, rule_format, OF mb]
  have 2: "\<exists>s'. step (EvSignal 12) sb = Some (None, s')
      \<and> in_turn sb 1 \<and> fence sb 0 = Pending \<and> fence s' 0 = Signaled \<and> \<not> in_turn s' 1"
    by simp
  have ff: "map_option (\<lambda>s. map_of (calls s) 12) (run1 both_flags attached)
      = Some (Some (UnlockClear 2 0))" by (simp add: scen_defs)
  then obtain sf where sf: "run1 both_flags attached = Some sf"
    and mf: "map_of (calls sf) 12 = Some (UnlockClear 2 0)" by auto
  from T [OF sf] mf have 6: "\<exists>s'. step (EvUnlocked 12) sf = Some (Some 0, s')
      \<and> locked sf 2 \<and> \<not> locked s' 2 \<and> fence s' = fence sf" by blast
  have fc: "map_option (\<lambda>s. (map_of (calls s) 12, busy s 2, user s 1, in_turn s 1))
        (run1 first_turn attached) = Some (None, False, Some 2, True)"
    by (simp add: run1_first_turn in_first_turn_def busy_def in_turn_def locked_def clearing_def)
  then obtain sc where sc: "run1 first_turn attached = Some sc"
    and mc: "map_of (calls sc) 12 = None" "\<not> busy sc 2" "user sc 1 = Some 2" "in_turn sc 1"
    by auto
  from T [OF sc, THEN conjunct2, THEN conjunct2, THEN conjunct2, THEN conjunct2, THEN conjunct2,
      THEN conjunct1, rule_format, of 12 2 1] mc
  have 3: "\<exists>s'. step (EvClose 12 2) sc = Some (None, s')
      \<and> map_of (calls s') 12 = Some (ReleaseCheck (Some 0)) \<and> \<not> flag s' 1"
    by (simp del: step.simps; blast)
  have fd: "map_option (\<lambda>s. map_of (calls s) 12) (run1 abandoned attached)
        = Some (Some (ReleaseCheck (Some 0)))" by (simp add: scen_defs)
  then obtain sd where sd: "run1 abandoned attached = Some sd"
    and md: "map_of (calls sd) 12 = Some (ReleaseCheck (Some 0))" by auto
  from T [OF sd] md have 4: "\<exists>s'. step (EvCloseCheck 12) sd = Some (None, s')
      \<and> map_of (calls s') 12 = Some (ReleaseSignal 0)" by blast
  have fe: "map_option (\<lambda>s. map_of (calls s) 12) (run1 abandoning_turn attached)
        = Some (Some (ReleaseSignal 0))" by (simp add: scen_defs)
  then obtain se where se: "run1 abandoning_turn attached = Some se"
    and me: "map_of (calls se) 12 = Some (ReleaseSignal 0)" by auto
  from T [OF se] me have 5: "\<exists>s'. step (EvCloseSignal 12) se = Some (Some 0, s')
      \<and> fence se 0 = Pending \<and> fence s' 0 = Signaled" by blast
  from r s q 0 fa sa 1 fb sb 2 ff sf 6 fc sc 3 fd sd 4 fe se 5 show ?thesis
    by (simp del: step.simps)
qed

text \<open>
  C10 as stated fails in the states between the two halves of a handover: after the
  disconnect of user 2 inside its turn no fence is signalled and no flag is set (the sum
  is 0), and in \<open>both_flags\<close> both flags are set (the sum is 2). It also fails without any
  call in flight when a participant has had two unlock calls in flight on its file: after
  \<open>two_tokens\<close>, which is not a run of single callers, \<open>fence[0]\<close> is signalled and user 1
  is inside its turn, so there are two tokens.
\<close>

theorem C10_sum_counterexample:
  "run1 abandoned attached \<noteq> None
   \<and> map_option (\<lambda>s. (fence s 0, fence s 1, user s 0, user s 1,
          map_option is_locked (mem s 1), calls s)) (run1 abandoned attached)
       = Some (Pending, Pending, Some 1, None, Some False, [(12, ReleaseCheck (Some 0)), (11, LockWait 1 0 0)])
   \<and> map_option (\<lambda>s. signaled_fences s + flags s) (run1 abandoned attached) = Some 0
   \<and> map_option (\<lambda>s. signaled_fences s + flags s) (run1 both_flags attached) = Some 2
   \<and> run1 two_tokens attached = None
   \<and> map_option (\<lambda>s. (fence s 0, fence s 1, user s 0, user s 1,
          map_option is_locked (mem s 1), map_option is_locked (mem s 2), calls s))
        (run two_tokens attached)
       = Some (Signaled, Pending, Some 1, Some 2, Some True, Some False, [])
   \<and> map_option (\<lambda>s. signaled_fences s + flags s) (run two_tokens attached) = Some 2
   \<and> map_option tokens (run two_tokens attached) = Some 2
   \<and> map_option quiet (run two_tokens attached) = Some True"
  by (simp add: scen_defs flags_def flag_def signaled_fences_def tokens_def quiet_def
      in_turn_def clearing_def abandoning_def)

end
